theory Spec2Isabelle
  imports Main
begin

section \<open>Text: Python strings as lists of code points\<close>

text \<open>
  A Python \<open>str\<close> is a sequence of Unicode code points, and \<open>len\<close> counts code points.
  A code point is a natural number here; \<open>lit\<close> turns an ASCII literal into such a sequence.
\<close>

type_synonym cp = nat
type_synonym str = "cp list"

definition lit :: "string \<Rightarrow> str" where
  "lit s = map of_char s"

text \<open>
  The Unicode database is not part of the script.  Two of its tables are used:
  \<open>str.isalnum\<close> on one code point (the regular expression class \<open>\w\<close> is "alphanumeric
  or underscore") and \<open>str.lower\<close> on a whole string.  Both are parameters of the model.
\<close>

record unicode =
  u_isalnum :: "cp \<Rightarrow> bool"
  u_lower :: "str \<Rightarrow> str"

text \<open>
  The white space of \<open>str.strip()\<close>, \<open>str.isspace()\<close> and of the class \<open>\s\<close>:
  U+0009..U+000D, U+001C..U+0020, U+0085, U+00A0, U+1680, U+2000..U+200A, U+2028, U+2029,
  U+202F, U+205F, U+3000.
\<close>

definition isspace :: "cp \<Rightarrow> bool" where
  "isspace c \<longleftrightarrow>
     (9 \<le> c \<and> c \<le> 13) \<or> (28 \<le> c \<and> c \<le> 32) \<or> c = 133 \<or> c = 160 \<or> c = 5760 \<or>
     (8192 \<le> c \<and> c \<le> 8202) \<or> c = 8232 \<or> c = 8233 \<or> c = 8239 \<or> c = 8287 \<or> c = 12288"

definition strip :: "str \<Rightarrow> str" where
  "strip s = rev (dropWhile isspace (rev (dropWhile isspace s)))"

text \<open>The character classes the two patterns of the script spell out.\<close>

definition cls_upper :: "cp \<Rightarrow> bool" where
  "cls_upper c \<longleftrightarrow> 65 \<le> c \<and> c \<le> 90"

definition cls_lower :: "cp \<Rightarrow> bool" where
  "cls_lower c \<longleftrightarrow> 97 \<le> c \<and> c \<le> 122"

definition cls_digit :: "cp \<Rightarrow> bool" where
  "cls_digit c \<longleftrightarrow> 48 \<le> c \<and> c \<le> 57"

definition cls_alnum :: "cp \<Rightarrow> bool" where
  "cls_alnum c \<longleftrightarrow> cls_lower c \<or> cls_upper c \<or> cls_digit c"

definition cls_alpha :: "cp \<Rightarrow> bool" where
  "cls_alpha c \<longleftrightarrow> cls_lower c \<or> cls_upper c"

definition is_word :: "unicode \<Rightarrow> cp \<Rightarrow> bool" where
  "is_word U c \<longleftrightarrow> u_isalnum U c \<or> c = 95"

section \<open>Regular expressions with Python's backtracking order\<close>

text \<open>
  The fragment of \<open>re\<close> the script uses: a character class, concatenation, the greedy star
  and the word boundary \<open>\b\<close>.  \<open>x+\<close> is \<open>xx*\<close> and \<open>x{n,}\<close> is \<open>n\<close> copies of \<open>x\<close> followed
  by \<open>x*\<close>; both keep the greedy order.
\<close>

datatype regex = Cls "cp \<Rightarrow> bool" | Seq regex regex | Star regex | WordB

definition OneOrMore :: "regex \<Rightarrow> regex" where
  "OneOrMore r = Seq r (Star r)"

primrec AtLeast :: "nat \<Rightarrow> regex \<Rightarrow> regex" where
  "AtLeast 0 r = Star r"
| "AtLeast (Suc n) r = Seq r (AtLeast n r)"

text \<open>
  A position in the subject string: the code point just before it (none at the start) and
  the rest of the string.  \<open>\b\<close> holds where exactly one of the two neighbours is a word
  character; the outside of the string counts as a non-word character.
\<close>

type_synonym pos = "cp option \<times> str"

definition boundary :: "(cp \<Rightarrow> bool) \<Rightarrow> pos \<Rightarrow> bool" where
  "boundary w s \<longleftrightarrow>
     (case fst s of None \<Rightarrow> False | Some c \<Rightarrow> w c) \<noteq> (case snd s of [] \<Rightarrow> False | c # _ \<Rightarrow> w c)"

text \<open>
  \<open>ends w r s\<close> lists every position at which a match of \<open>r\<close> started at \<open>s\<close> can end, in the
  order in which the backtracking matcher tries them: a greedy star tries one more iteration
  before it tries to stop, and an iteration that consumes nothing ends the repetition.
  The matcher takes the first position of the list that lets the rest of the pattern match,
  which for a whole pattern is the head of the list.
\<close>

function ends :: "(cp \<Rightarrow> bool) \<Rightarrow> regex \<Rightarrow> pos \<Rightarrow> pos list" where
  "ends w (Cls p) s =
     (case snd s of [] \<Rightarrow> [] | c # cs \<Rightarrow> if p c then [(Some c, cs)] else [])"
| "ends w WordB s = (if boundary w s then [s] else [])"
| "ends w (Seq a b) s = concat (map (\<lambda>s'. ends w b s') (ends w a s))"
| "ends w (Star a) s =
     concat (map (\<lambda>s'. if length (snd s') < length (snd s) then ends w (Star a) s' else [])
                 (ends w a s)) @ [s]"
  by pat_completeness auto
termination
  by (relation "inv_image (measure size <*lex*> measure (\<lambda>s. length (snd s))) (\<lambda>(w, r, s). (r, s))")
     auto

text \<open>
  \<open>re.findall\<close>: scan from the left; where the pattern matches, keep the matched text and go
  on behind it; where it does not, move one code point on.  The single group of the entity
  pattern spans everything between the two zero-width \<open>\b\<close>, so the group's text is
  the text of the whole match.  An empty match is kept as an empty string and the scan moves
  one code point on; the two patterns of the script never match the empty string (lemmas
  \<open>entity_match_consumes\<close> and \<open>topic_match_consumes\<close> below).
\<close>

function findall :: "(cp \<Rightarrow> bool) \<Rightarrow> regex \<Rightarrow> pos \<Rightarrow> str list" where
  "findall w r (prev, rest) =
     (case ends w r (prev, rest) of
        [] \<Rightarrow> (case rest of [] \<Rightarrow> [] | c # cs \<Rightarrow> findall w r (Some c, cs))
      | e # _ \<Rightarrow>
          if length (snd e) < length rest
          then take (length rest - length (snd e)) rest # findall w r e
          else [] # (case rest of [] \<Rightarrow> [] | c # cs \<Rightarrow> findall w r (Some c, cs)))"
  by pat_completeness auto
termination
  by (relation "measure (\<lambda>(w, r, s). length (snd s))") auto

section \<open>The term extractor\<close>

text \<open>
  The entity pattern \<open>\b([A-Z][a-zA-Z0-9]+(?:\s+[A-Z][a-zA-Z0-9]+)*)\b\<close> and the topic
  pattern \<open>\b[a-zA-Z]{5,}\b\<close>.
\<close>

definition cap_word :: regex where
  "cap_word = Seq (Cls cls_upper) (OneOrMore (Cls cls_alnum))"

definition entity_re :: regex where
  "entity_re =
     Seq WordB (Seq (Seq cap_word (Star (Seq (OneOrMore (Cls isspace)) cap_word))) WordB)"

definition topic_re :: regex where
  "topic_re = Seq WordB (Seq (AtLeast 5 (Cls cls_alpha)) WordB)"

definition entity_stop :: "str list" where
  "entity_stop = map lit [''The'', ''This'', ''That'', ''And'', ''For'', ''With'', ''From'',
     ''Project'', ''Customer'']"

definition topic_stop :: "str list" where
  "topic_stop = map lit [''project'', ''requirements'', ''system'', ''solution'', ''cloud'',
     ''customer'', ''service'']"

definition find_entities :: "unicode \<Rightarrow> str \<Rightarrow> str list" where
  "find_entities U text =
     (let candidates = findall (is_word U) entity_re (None, text);
          cleaned = map strip (filter (\<lambda>c. c \<notin> set entity_stop \<and> length c > 2) candidates)
      in cleaned)"

subsection \<open>\<open>collections.Counter\<close>\<close>

text \<open>
  A \<open>Counter\<close> is a dictionary from keys to counts that keeps the order in which the keys
  were first inserted: an association list with distinct keys.  \<open>counter_add k n c\<close> is
  \<open>c[k] += n\<close>; \<open>Counter xs\<close> counts the elements of a list; \<open>counter_update\<close> is
  \<open>Counter.update\<close> with another counter as its argument.
\<close>

type_synonym 'a counter = "('a \<times> nat) list"

fun counter_add :: "'a \<Rightarrow> nat \<Rightarrow> 'a counter \<Rightarrow> 'a counter" where
  "counter_add k n [] = [(k, n)]"
| "counter_add k n ((k', v) # c) =
     (if k' = k then (k', v + n) # c else (k', v) # counter_add k n c)"

definition Counter :: "'a list \<Rightarrow> 'a counter" where
  "Counter xs = foldl (\<lambda>c x. counter_add x 1 c) [] xs"

definition counter_update :: "'a counter \<Rightarrow> 'a counter \<Rightarrow> 'a counter" where
  "counter_update c other = foldl (\<lambda>c (k, n). counter_add k n c) c other"

definition counter_get :: "'a counter \<Rightarrow> 'a \<Rightarrow> nat" where
  "counter_get c k = (case map_of c k of None \<Rightarrow> 0 | Some n \<Rightarrow> n)"

text \<open>
  \<open>Counter.most_common(n)\<close> is \<open>heapq.nlargest(n, items, key=count)\<close>, which the library
  documents as \<open>sorted(items, key=count, reverse=True)[:n]\<close>: a stable sort by descending
  count, so that keys with equal counts stay in insertion order, cut to \<open>n\<close> entries.
\<close>

definition most_common :: "nat \<Rightarrow> 'a counter \<Rightarrow> ('a \<times> nat) list" where
  "most_common n c = take n (sort_key (\<lambda>kv. - int (snd kv)) c)"

definition find_topics :: "unicode \<Rightarrow> str \<Rightarrow> nat \<Rightarrow> str list" where
  "find_topics U text top_n =
     (let words = findall (is_word U) topic_re (None, u_lower U text);
          words = filter (\<lambda>w. w \<notin> set topic_stop) words;
          freq = Counter words
      in map fst (most_common top_n freq))"

text \<open>
  Unicode tables cut down to ASCII, to run the extractor on ASCII texts: the alphanumeric
  code points are the ASCII letters and digits, and \<open>lower\<close> maps \<open>A..Z\<close> to \<open>a..z\<close>.
\<close>

definition ascii_tables :: unicode where
  "ascii_tables =
     \<lparr>u_isalnum = cls_alnum, u_lower = map (\<lambda>c. if cls_upper c then c + 32 else c)\<rparr>"

section \<open>The graph builder\<close>

text \<open>
  A Python \<open>dict\<close> keeps its keys in insertion order: an association list with distinct keys.
  \<open>dict_set k v d\<close> is \<open>d[k] = v\<close>: a present key keeps its place and takes the new value, a
  new key goes to the end.
\<close>

type_synonym ('k, 'v) dict = "('k \<times> 'v) list"

fun dict_set :: "'k \<Rightarrow> 'v \<Rightarrow> ('k, 'v) dict \<Rightarrow> ('k, 'v) dict" where
  "dict_set k v [] = [(k, v)]"
| "dict_set k v ((k', v') # d) = (if k' = k then (k', v) # d else (k', v') # dict_set k v d)"

definition dict_keys :: "('k, 'v) dict \<Rightarrow> 'k list" where
  "dict_keys d = map fst d"

definition dict_values :: "('k, 'v) dict \<Rightarrow> 'v list" where
  "dict_values d = map snd d"

datatype node_type = File_node | Entity_node | Topic_node

record node =
  n_id :: str
  n_type :: node_type
  n_name :: str
  n_path :: "str option"

datatype edge_type =
  FILE_CONTAINS_ENTITY | FILE_CONTAINS_TOPIC | ENTITY_RELATED_TO_ENTITY | ENTITY_RELATED_TO_TOPIC

record edge =
  e_type :: edge_type
  e_from :: str
  e_to :: str
  e_weight :: "nat option"
  e_file :: "str option"

text \<open>
  The module-level accumulators: the three node dictionaries \<open>nodes["file"]\<close>,
  \<open>nodes["entity"]\<close> and \<open>nodes["topic"]\<close>, the edge list, the two global counters and the
  dictionary of the texts of the registered files.
\<close>

record kg =
  file_nodes :: "(str, node) dict"
  entity_nodes :: "(str, node) dict"
  topic_nodes :: "(str, node) dict"
  edges :: "edge list"
  entity_global_counts :: "str counter"
  topic_global_counts :: "str counter"
  file_texts :: "(str, str) dict"

definition init_kg :: kg where
  "init_kg = \<lparr>file_nodes = [], entity_nodes = [], topic_nodes = [], edges = [],
     entity_global_counts = [], topic_global_counts = [], file_texts = []\<rparr>"

text \<open>
  One file of the directory walk: its path \<open>os.path.join(root, f)\<close>, its base name \<open>f\<close> and
  the text the extractor returned for the path.
\<close>

record walked =
  w_path :: str
  w_name :: str
  w_text :: str

subsection \<open>The statements that change the accumulators\<close>

definition set_file_node :: "str \<Rightarrow> node \<Rightarrow> kg \<Rightarrow> kg" where
  "set_file_node file_id nd g = g\<lparr>file_nodes := dict_set file_id nd (file_nodes g)\<rparr>"

definition set_file_text :: "str \<Rightarrow> str \<Rightarrow> kg \<Rightarrow> kg" where
  "set_file_text file_id text g = g\<lparr>file_texts := dict_set file_id text (file_texts g)\<rparr>"

definition update_entity_globals :: "str counter \<Rightarrow> kg \<Rightarrow> kg" where
  "update_entity_globals c g =
     g\<lparr>entity_global_counts := counter_update (entity_global_counts g) c\<rparr>"

definition update_topic_globals :: "str counter \<Rightarrow> kg \<Rightarrow> kg" where
  "update_topic_globals c g =
     g\<lparr>topic_global_counts := counter_update (topic_global_counts g) c\<rparr>"

definition ensure_entity_node :: "str \<Rightarrow> str \<Rightarrow> kg \<Rightarrow> kg" where
  "ensure_entity_node ent_id e g =
     (if ent_id \<notin> set (dict_keys (entity_nodes g))
      then g\<lparr>entity_nodes := dict_set ent_id
               \<lparr>n_id = ent_id, n_type = Entity_node, n_name = e, n_path = None\<rparr> (entity_nodes g)\<rparr>
      else g)"

definition ensure_topic_node :: "str \<Rightarrow> str \<Rightarrow> kg \<Rightarrow> kg" where
  "ensure_topic_node top_id t g =
     (if top_id \<notin> set (dict_keys (topic_nodes g))
      then g\<lparr>topic_nodes := dict_set top_id
               \<lparr>n_id = top_id, n_type = Topic_node, n_name = t, n_path = None\<rparr> (topic_nodes g)\<rparr>
      else g)"

definition append_edge :: "edge \<Rightarrow> kg \<Rightarrow> kg" where
  "append_edge e g = g\<lparr>edges := edges g @ [e]\<rparr>"

text \<open>A run is the sequence of these statements, executed from left to right.\<close>

definition exec :: "(kg \<Rightarrow> kg) list \<Rightarrow> kg \<Rightarrow> kg" where
  "exec steps g = foldl (\<lambda>g step. step g) g steps"

subsection \<open>First pass: one file of the walk\<close>

text \<open>The identifiers \<open>f"file:{path}"\<close>, \<open>f"entity:{e}"\<close> and \<open>f"topic:{t}"\<close>.\<close>

definition file_id_of :: "str \<Rightarrow> str" where
  "file_id_of path = lit ''file:'' @ path"

definition entity_id_of :: "str \<Rightarrow> str" where
  "entity_id_of e = lit ''entity:'' @ e"

definition topic_id_of :: "str \<Rightarrow> str" where
  "topic_id_of t = lit ''topic:'' @ t"

text \<open>The four kinds of edge records the script appends.\<close>

definition contains_entity_edge :: "str \<Rightarrow> str \<Rightarrow> nat \<Rightarrow> edge" where
  "contains_entity_edge file_id ent_id count =
     \<lparr>e_type = FILE_CONTAINS_ENTITY, e_from = file_id, e_to = ent_id,
      e_weight = Some count, e_file = None\<rparr>"

definition contains_topic_edge :: "str \<Rightarrow> str \<Rightarrow> nat \<Rightarrow> edge" where
  "contains_topic_edge file_id top_id count =
     \<lparr>e_type = FILE_CONTAINS_TOPIC, e_from = file_id, e_to = top_id,
      e_weight = Some count, e_file = None\<rparr>"

definition related_entity_edge :: "str \<Rightarrow> str \<Rightarrow> str \<Rightarrow> edge" where
  "related_entity_edge e1 e2 file_id =
     \<lparr>e_type = ENTITY_RELATED_TO_ENTITY, e_from = e1, e_to = e2,
      e_weight = None, e_file = Some file_id\<rparr>"

definition related_topic_edge :: "str \<Rightarrow> str \<Rightarrow> str \<Rightarrow> edge" where
  "related_topic_edge e_id t_id file_id =
     \<lparr>e_type = ENTITY_RELATED_TO_TOPIC, e_from = e_id, e_to = t_id,
      e_weight = None, e_file = Some file_id\<rparr>"

text \<open>The bodies of the two inner loops over \<open>entity_counts.items()\<close> and \<open>topic_counts.items()\<close>.\<close>

definition contains_entity_steps :: "str \<Rightarrow> str \<times> nat \<Rightarrow> (kg \<Rightarrow> kg) list" where
  "contains_entity_steps file_id ec =
     (let e = fst ec; count = snd ec; ent_id = entity_id_of e
      in [ensure_entity_node ent_id e,
          append_edge (contains_entity_edge file_id ent_id count)])"

definition contains_topic_steps :: "str \<Rightarrow> str \<times> nat \<Rightarrow> (kg \<Rightarrow> kg) list" where
  "contains_topic_steps file_id tc =
     (let t = fst tc; count = snd tc; top_id = topic_id_of t
      in [ensure_topic_node top_id t,
          append_edge (contains_topic_edge file_id top_id count)])"

text \<open>
  The body of the walk's loop.  A file whose text is empty after \<open>strip()\<close> is skipped by
  \<open>continue\<close> before anything is stored for it.
\<close>

definition collect_file :: "unicode \<Rightarrow> walked \<Rightarrow> (kg \<Rightarrow> kg) list" where
  "collect_file U w =
     (if strip (w_text w) = [] then []
      else
        (let file_id = file_id_of (w_path w);
             entities = find_entities U (w_text w);
             topics = find_topics U (w_text w) 10;
             entity_counts = Counter entities;
             topic_counts = Counter topics
         in [set_file_node file_id
               \<lparr>n_id = file_id, n_type = File_node, n_name = w_name w, n_path = Some (w_path w)\<rparr>,
             set_file_text file_id (w_text w),
             update_entity_globals entity_counts,
             update_topic_globals topic_counts]
            @ concat (map (contains_entity_steps file_id) entity_counts)
            @ concat (map (contains_topic_steps file_id) topic_counts)))"

definition first_pass :: "unicode \<Rightarrow> walked list \<Rightarrow> (kg \<Rightarrow> kg) list" where
  "first_pass U files = concat (map (collect_file U) files)"

subsection \<open>Second pass: co-occurrence edges\<close>

text \<open>
  \<open>list({e for e in ...})\<close> lists the distinct elements in the iteration order of a Python
  set, which the language leaves open.  The order is a parameter \<open>ord\<close> of the model: a
  function from the list the set is built from to a list of its distinct elements
  (see \<open>set_order\<close> below).
\<close>

definition set_order :: "(str list \<Rightarrow> str list) \<Rightarrow> bool" where
  "set_order ord \<longleftrightarrow> (\<forall>xs. distinct (ord xs) \<and> set (ord xs) = set xs)"

definition entity_entity_steps :: "str \<Rightarrow> str list \<Rightarrow> (kg \<Rightarrow> kg) list" where
  "entity_entity_steps file_id entities =
     concat (map (\<lambda>i. map (\<lambda>j.
         (let e1 = entity_id_of (entities ! i); e2 = entity_id_of (entities ! j)
          in append_edge (related_entity_edge e1 e2 file_id)))
       [i + 1 ..< length entities]) [0 ..< length entities])"

definition entity_topic_steps :: "str \<Rightarrow> str list \<Rightarrow> str list \<Rightarrow> (kg \<Rightarrow> kg) list" where
  "entity_topic_steps file_id entities topics =
     concat (map (\<lambda>e. map (\<lambda>t.
         (let e_id = entity_id_of e; t_id = topic_id_of t
          in append_edge (related_topic_edge e_id t_id file_id)))
       topics) entities)"

definition cooccur_file :: "(str list \<Rightarrow> str list) \<Rightarrow> unicode \<Rightarrow> str \<times> str \<Rightarrow> (kg \<Rightarrow> kg) list" where
  "cooccur_file ord U ft =
     (let file_id = fst ft; text = snd ft;
          entities = ord (find_entities U text);
          topics = ord (find_topics U text 10)
      in entity_entity_steps file_id entities @ entity_topic_steps file_id entities topics)"

definition second_pass :: "(str list \<Rightarrow> str list) \<Rightarrow> unicode \<Rightarrow> kg \<Rightarrow> (kg \<Rightarrow> kg) list" where
  "second_pass ord U g = concat (map (cooccur_file ord U) (file_texts g))"

definition build_kg :: "(str list \<Rightarrow> str list) \<Rightarrow> unicode \<Rightarrow> walked list \<Rightarrow> kg" where
  "build_kg ord U files =
     (let g1 = exec (first_pass U files) init_kg
      in exec (second_pass ord U g1) g1)"

section \<open>The exporter\<close>

definition type_tag :: "edge_type \<Rightarrow> str" where
  "type_tag t = (case t of
       FILE_CONTAINS_ENTITY \<Rightarrow> lit ''FILE_CONTAINS_ENTITY''
     | FILE_CONTAINS_TOPIC \<Rightarrow> lit ''FILE_CONTAINS_TOPIC''
     | ENTITY_RELATED_TO_ENTITY \<Rightarrow> lit ''ENTITY_RELATED_TO_ENTITY''
     | ENTITY_RELATED_TO_TOPIC \<Rightarrow> lit ''ENTITY_RELATED_TO_TOPIC'')"

text \<open>
  The Graphviz lines.  Each line is an f-string: the fixed pieces of the template with the
  values of the fields put between them as they are.  Code point 34 is the double quote.
\<close>

definition dq :: str where
  "dq = [34]"

definition gv_node_line :: "str \<Rightarrow> node \<Rightarrow> str" where
  "gv_node_line shape nd =
     lit ''  '' @ dq @ n_id nd @ dq @ lit '' [label='' @ dq @ n_name nd @ dq @ lit '' shape=''
       @ shape @ lit ''];''"

definition gv_edge_line :: "edge \<Rightarrow> str" where
  "gv_edge_line e =
     lit ''  '' @ dq @ e_from e @ dq @ lit '' -- '' @ dq @ e_to e @ dq @ lit '' [label='' @ dq
       @ type_tag (e_type e) @ dq @ lit ''];''"

definition gv_lines :: "kg \<Rightarrow> str list" where
  "gv_lines g =
     [lit ''graph G {'']
     @ map (gv_node_line (lit ''box'')) (dict_values (file_nodes g))
     @ map (gv_node_line (lit ''ellipse'')) (dict_values (entity_nodes g))
     @ map (gv_node_line (lit ''diamond'')) (dict_values (topic_nodes g))
     @ map gv_edge_line (edges g)
     @ [lit ''}'']"

text \<open>The decimal digits of a number, as an f-string prints an \<open>int\<close>.\<close>

function str_of_nat :: "nat \<Rightarrow> str" where
  "str_of_nat n = (if n < 10 then [48 + n] else str_of_nat (n div 10) @ [48 + n mod 10])"
  by pat_completeness auto
termination
  by (relation "measure (\<lambda>n. n)") auto

text \<open>The lines of the summary; code point 10 is the newline inside three of them.\<close>

definition summary_lines :: "kg \<Rightarrow> str list" where
  "summary_lines g =
     [lit ''# Knowledge Graph Summary'' @ [10],
      lit ''- Files: '' @ str_of_nat (length (file_nodes g)),
      lit ''- Entities: '' @ str_of_nat (length (entity_nodes g)),
      lit ''- Topics: '' @ str_of_nat (length (topic_nodes g)) @ [10],
      lit ''## Top Entities'' @ [10]]
     @ map (\<lambda>(ent, cnt). lit ''- '' @ ent @ lit '' ('' @ str_of_nat cnt @ lit '' mentions)'')
         (most_common 20 (entity_global_counts g))
     @ [[10] @ lit ''## Top Topics'' @ [10]]
     @ map (\<lambda>(top, cnt). lit ''- '' @ top @ lit '' ('' @ str_of_nat cnt @ lit '' occurrences)'')
         (most_common 20 (topic_global_counts g))"

section \<open>The strings a pattern can match\<close>

text \<open>
  \<open>lang r m\<close>: the pattern \<open>r\<close> can consume exactly the code points \<open>m\<close>, whatever stands
  around them (\<open>\b\<close> consumes nothing).  Every match the matcher finds is such a string.
\<close>

inductive lang :: "regex \<Rightarrow> str \<Rightarrow> bool" where
  lang_Cls: "p c \<Longrightarrow> lang (Cls p) [c]"
| lang_WordB: "lang WordB []"
| lang_Seq: "lang a m1 \<Longrightarrow> lang b m2 \<Longrightarrow> lang (Seq a b) (m1 @ m2)"
| lang_Star_Nil: "lang (Star a) []"
| lang_Star_step: "lang a m1 \<Longrightarrow> lang (Star a) m2 \<Longrightarrow> lang (Star a) (m1 @ m2)"

section \<open>Notions used to state the properties\<close>

text \<open>
  The words topic extraction counts: the matches of the topic pattern in the lowercased
  text that are not stop words (the value of \<open>words\<close> when \<open>find_topics\<close> builds its counter).
\<close>

definition topic_words :: "unicode \<Rightarrow> str \<Rightarrow> str list" where
  "topic_words U text =
     filter (\<lambda>w. w \<notin> set topic_stop) (findall (is_word U) topic_re (None, u_lower U text))"

text \<open>The index at which \<open>x\<close> is first met in \<open>xs\<close> (the length of \<open>xs\<close> if it never is).\<close>

definition first_index :: "'a list \<Rightarrow> 'a \<Rightarrow> nat" where
  "first_index xs x = length (takeWhile (\<lambda>y. y \<noteq> x) xs)"

text \<open>The files of the walk that are not skipped: those whose text is not blank.\<close>

definition registered :: "walked list \<Rightarrow> walked list" where
  "registered files = filter (\<lambda>w. strip (w_text w) \<noteq> []) files"

text \<open>
  The edges the first pass appends for one file, and the edges the second pass appends for
  one entry of \<open>file_texts\<close>, in the order of their creation.  \<open>index_pairs\<close> are the pairs
  \<open>(xs[i], xs[j])\<close> the two nested index loops \<open>i < j\<close> go through.
\<close>

definition file_edges :: "unicode \<Rightarrow> walked \<Rightarrow> edge list" where
  "file_edges U w =
     (if strip (w_text w) = [] then []
      else map (\<lambda>ec. contains_entity_edge (file_id_of (w_path w)) (entity_id_of (fst ec)) (snd ec))
             (Counter (find_entities U (w_text w)))
         @ map (\<lambda>tc. contains_topic_edge (file_id_of (w_path w)) (topic_id_of (fst tc)) (snd tc))
             (Counter (find_topics U (w_text w) 10)))"

definition index_pairs :: "'a list \<Rightarrow> ('a \<times> 'a) list" where
  "index_pairs xs =
     concat (map (\<lambda>i. map (\<lambda>j. (xs ! i, xs ! j)) [i + 1 ..< length xs]) [0 ..< length xs])"

definition entity_entity_edges :: "str \<Rightarrow> str list \<Rightarrow> edge list" where
  "entity_entity_edges file_id entities =
     map (\<lambda>ab. related_entity_edge (entity_id_of (fst ab)) (entity_id_of (snd ab)) file_id)
       (index_pairs entities)"

definition entity_topic_edges :: "str \<Rightarrow> str list \<Rightarrow> str list \<Rightarrow> edge list" where
  "entity_topic_edges file_id entities topics =
     concat (map (\<lambda>e. map (\<lambda>t. related_topic_edge (entity_id_of e) (topic_id_of t) file_id) topics)
       entities)"

definition cooccur_edges :: "(str list \<Rightarrow> str list) \<Rightarrow> unicode \<Rightarrow> str \<times> str \<Rightarrow> edge list" where
  "cooccur_edges ord U ft =
     entity_entity_edges (fst ft) (ord (find_entities U (snd ft)))
     @ entity_topic_edges (fst ft) (ord (find_entities U (snd ft))) (ord (find_topics U (snd ft) 10))"

text \<open>
  The identifiers of all nodes, and the property that every edge starts and ends at a node
  that is there.
\<close>

definition node_ids :: "kg \<Rightarrow> str set" where
  "node_ids g =
     set (dict_keys (file_nodes g)) \<union> set (dict_keys (entity_nodes g))
       \<union> set (dict_keys (topic_nodes g))"

definition closed :: "kg \<Rightarrow> bool" where
  "closed g \<longleftrightarrow> (\<forall>e\<in>set (edges g). e_from e \<in> node_ids g \<and> e_to e \<in> node_ids g)"

text \<open>
  The node records the first pass stores, and \<open>ensure_in\<close>: the effect of \<open>if k not in d:
  d[k] = v\<close> on the dictionary.
\<close>

definition file_node_of :: "walked \<Rightarrow> node" where
  "file_node_of w =
     \<lparr>n_id = file_id_of (w_path w), n_type = File_node, n_name = w_name w,
      n_path = Some (w_path w)\<rparr>"

definition entity_node_of :: "str \<Rightarrow> node" where
  "entity_node_of e =
     \<lparr>n_id = entity_id_of e, n_type = Entity_node, n_name = e, n_path = None\<rparr>"

definition topic_node_of :: "str \<Rightarrow> node" where
  "topic_node_of t =
     \<lparr>n_id = topic_id_of t, n_type = Topic_node, n_name = t, n_path = None\<rparr>"

definition ensure_in :: "'k \<Rightarrow> 'v \<Rightarrow> ('k, 'v) dict \<Rightarrow> ('k, 'v) dict" where
  "ensure_in k v d = (if k \<in> set (dict_keys d) then d else dict_set k v d)"

text \<open>
  Example inputs: the two files of the end-to-end scenario of the specification, and a
  zero-byte text file.
\<close>

definition file_a :: walked where
  "file_a = \<lparr>w_path = lit ''./source/a.txt'', w_name = lit ''a.txt'',
     w_text = lit ''Acme Corp requirements for Acme Corp cloud migration''\<rparr>"

definition file_b :: walked where
  "file_b = \<lparr>w_path = lit ''./source/b.txt'', w_name = lit ''b.txt'',
     w_text = lit ''Acme Corp and Globex Inc partnership''\<rparr>"

definition file_empty :: walked where
  "file_empty = \<lparr>w_path = lit ''./source/empty.txt'', w_name = lit ''empty.txt'', w_text = []\<rparr>"

definition file_c :: walked where
  "file_c = \<lparr>w_path = lit ''./source/c.txt'', w_name = lit ''c.txt'',
     w_text = lit ''alpha alpha alpha''\<rparr>"

text \<open>A file in which an entity stands twice and a topic word three times.\<close>

definition file_r :: walked where
  "file_r = \<lparr>w_path = lit ''./source/r.txt'', w_name = lit ''r.txt'',
     w_text = lit ''Acme Corp alpha alpha alpha Acme Corp''\<rparr>"

text \<open>Two files with the same base name in two directories.\<close>

definition file_n1 :: walked where
  "file_n1 = \<lparr>w_path = lit ''./source/a/notes.txt'', w_name = lit ''notes.txt'',
     w_text = lit ''hello''\<rparr>"

definition file_n2 :: walked where
  "file_n2 = \<lparr>w_path = lit ''./source/b/notes.txt'', w_name = lit ''notes.txt'',
     w_text = lit ''world''\<rparr>"

text \<open>
  \<open>holds_along I steps g\<close>: the property \<open>I\<close> holds in \<open>g\<close> and after each statement of
  \<open>steps\<close>, run from \<open>g\<close>.
\<close>

fun holds_along :: "(kg \<Rightarrow> bool) \<Rightarrow> (kg \<Rightarrow> kg) list \<Rightarrow> kg \<Rightarrow> bool" where
  "holds_along I [] g = I g"
| "holds_along I (s # steps) g = (I g \<and> holds_along I steps (s g))"

text \<open>
  A file whose name holds a double quote (34) and a backslash (92), and whose text holds an
  entity with a newline (10) between its two words.
\<close>

definition file_q :: walked where
  "file_q = \<lparr>w_path = lit ''./source/a'' @ [34] @ lit ''b'' @ [92] @ lit ''.txt'',
     w_name = lit ''a'' @ [34] @ lit ''b'' @ [92] @ lit ''.txt'',
     w_text = lit ''Acme'' @ [10] @ lit ''Corp''\<rparr>"

section \<open>Properties of the matcher\<close>

declare findall.simps [simp del]

declare ends.simps [simp del]

inductive_cases lang_ClsE: "lang (Cls p) m"
inductive_cases lang_WordBE: "lang WordB m"
inductive_cases lang_SeqE: "lang (Seq a b) m"

lemma ends_sound:
  "s' \<in> set (ends w r s) \<Longrightarrow> \<exists>m. snd s = m @ snd s' \<and> lang r m"
proof (induction w r s arbitrary: s' rule: ends.induct)
  case (1 w p s)
  then show ?case
    by (cases "snd s") (auto simp: ends.simps(1) split: if_splits intro: lang_Cls)
next
  case (2 w s)
  then show ?case
    by (auto simp: ends.simps(2) split: if_splits intro: lang_WordB)
next
  case (3 w a b s)
  from "3.prems" obtain t where t: "t \<in> set (ends w a s)" and s': "s' \<in> set (ends w b t)"
    by (auto simp: ends.simps(3))
  from "3.IH"(1)[OF t] obtain m1 where m1: "snd s = m1 @ snd t" "lang a m1" by blast
  from "3.IH"(2)[OF t s'] obtain m2 where m2: "snd t = m2 @ snd s'" "lang b m2" by blast
  have "snd s = (m1 @ m2) @ snd s'" using m1 m2 by simp
  moreover have "lang (Seq a b) (m1 @ m2)" using m1 m2 by (blast intro: lang_Seq)
  ultimately show ?case by blast
next
  case (4 w a s)
  show ?case
  proof (cases "s' = s")
    case True
    then show ?thesis by (auto intro: lang_Star_Nil)
  next
    case False
    from "4.prems" have "s' \<in> set (concat (map (\<lambda>s'. if length (snd s') < length (snd s)
        then ends w (Star a) s' else []) (ends w a s)) @ [s])"
      by (subst (asm) ends.simps(4))
    with False obtain t where t: "t \<in> set (ends w a s)"
      and lt: "length (snd t) < length (snd s)" and s': "s' \<in> set (ends w (Star a) t)"
      by (auto split: if_splits)
    from "4.IH"(1)[OF t] obtain m1 where m1: "snd s = m1 @ snd t" "lang a m1" by blast
    from "4.IH"(2)[OF t lt s'] obtain m2 where m2: "snd t = m2 @ snd s'" "lang (Star a) m2" by blast
    have "snd s = (m1 @ m2) @ snd s'" using m1 m2 by simp
    moreover have "lang (Star a) (m1 @ m2)" using m1 m2 by (blast intro: lang_Star_step)
    ultimately show ?thesis by blast
  qed
qed

lemma findall_sound:
  "x \<in> set (findall w r s) \<Longrightarrow> lang r x \<and> (\<exists>pre post. snd s = pre @ x @ post)"
proof (induction w r s arbitrary: x rule: findall.induct)
  case (1 w r prev rest)
  note prems = "1.prems"[unfolded findall.simps[of w r prev rest]]
  show ?case
  proof (cases "ends w r (prev, rest)")
    case Nil
    show ?thesis
    proof (cases rest)
      case Nil': Nil
      with Nil prems show ?thesis by simp
    next
      case (Cons c cs)
      with Nil prems have "x \<in> set (findall w r (Some c, cs))" by simp
      from "1.IH"(1)[OF Nil Cons this] obtain pre post where "lang r x" "cs = pre @ x @ post"
        by auto
      then have "lang r x" "rest = (c # pre) @ x @ post" using Cons by auto
      then show ?thesis unfolding snd_conv by blast
    qed
  next
    case (Cons e es)
    have "e \<in> set (ends w r (prev, rest))" using Cons by simp
    from ends_sound[OF this] obtain m where m: "rest = m @ snd e" "lang r m" by auto
    show ?thesis
    proof (cases "length (snd e) < length rest")
      case True
      with Cons prems have "x = take (length rest - length (snd e)) rest \<or> x \<in> set (findall w r e)" by simp
      then show ?thesis
      proof
        assume "x = take (length rest - length (snd e)) rest"
        then have "x = m" using m by simp
        then have "lang r x" "rest = [] @ x @ snd e" using m by auto
        then show ?thesis unfolding snd_conv by blast
      next
        assume "x \<in> set (findall w r e)"
        from "1.IH"(2)[OF Cons True this] obtain pre post where "lang r x" "snd e = pre @ x @ post"
          by auto
        then have "lang r x" "rest = (m @ pre) @ x @ post" using m by auto
        then show ?thesis unfolding snd_conv by blast
      qed
    next
      case False
      then have "m = []" using m by (cases m) auto
      show ?thesis
      proof (cases rest)
        case Nil
        with Cons False prems have "x = []" by simp
        then have "lang r x" "rest = [] @ x @ rest" using \<open>m = []\<close> m by auto
        then show ?thesis unfolding snd_conv by blast
      next
        case Cons': (Cons c cs)
        with Cons False prems have "x = [] \<or> x \<in> set (findall w r (Some c, cs))" by simp
        then show ?thesis
        proof
          assume "x = []"
          then have "lang r x" "rest = [] @ x @ rest" using \<open>m = []\<close> m by auto
          then show ?thesis unfolding snd_conv by blast
        next
          assume "x \<in> set (findall w r (Some c, cs))"
          from "1.IH"(3)[OF Cons False Cons' this] obtain pre post where "lang r x" "cs = pre @ x @ post"
            by auto
          then have "lang r x" "rest = (c # pre) @ x @ post" using Cons' by auto
          then show ?thesis unfolding snd_conv by blast
        qed
      qed
    qed
  qed
qed

subsection \<open>What the two patterns can match\<close>

lemma lang_Cls_iff: "lang (Cls p) m \<longleftrightarrow> (\<exists>c. m = [c] \<and> p c)"
  by (auto elim: lang_ClsE intro: lang_Cls)

lemma lang_Seq_iff: "lang (Seq a b) m \<longleftrightarrow> (\<exists>m1 m2. m = m1 @ m2 \<and> lang a m1 \<and> lang b m2)"
proof
  assume "lang (Seq a b) m"
  then show "\<exists>m1 m2. m = m1 @ m2 \<and> lang a m1 \<and> lang b m2"
    by (rule lang_SeqE) blast
next
  assume "\<exists>m1 m2. m = m1 @ m2 \<and> lang a m1 \<and> lang b m2"
  then show "lang (Seq a b) m" by (auto intro: lang_Seq)
qed

lemma lang_WordB_iff: "lang WordB m \<longleftrightarrow> m = []"
  by (auto elim: lang_WordBE intro: lang_WordB)

lemma lang_Star_Cls: "lang r m \<Longrightarrow> r = Star (Cls p) \<Longrightarrow> \<forall>c\<in>set m. p c"
  by (induction rule: lang.induct) (auto simp: lang_Cls_iff)

lemma lang_OneOrMore_Cls:
  "lang (OneOrMore (Cls p)) m \<Longrightarrow> m \<noteq> [] \<and> (\<forall>c\<in>set m. p c)"
  unfolding OneOrMore_def lang_Seq_iff lang_Cls_iff
  using lang_Star_Cls by fastforce

lemma lang_cap_word:
  assumes "lang cap_word m"
  shows "2 \<le> length m \<and> cls_upper (hd m) \<and> cls_alnum (last m)"
proof -
  from assms obtain c m2 where m: "m = c # m2" "cls_upper c" "lang (OneOrMore (Cls cls_alnum)) m2"
    unfolding cap_word_def lang_Seq_iff lang_Cls_iff by auto
  from lang_OneOrMore_Cls[OF m(3)] have "m2 \<noteq> []" "\<forall>c\<in>set m2. cls_alnum c" by auto
  then show ?thesis using m by (cases m2) auto
qed

lemma lang_Star_last:
  "lang r m \<Longrightarrow> r = Star a \<Longrightarrow> (\<And>x. lang a x \<Longrightarrow> x \<noteq> [] \<and> P (last x)) \<Longrightarrow> m = [] \<or> P (last m)"
  by (induction rule: lang.induct) (auto simp: last_append)

lemma lang_entity_re:
  assumes "lang entity_re m"
  shows "2 \<le> length m \<and> cls_upper (hd m) \<and> cls_alnum (last m)"
proof -
  from assms obtain m1 m2 where m: "m = m1 @ m2" "lang cap_word m1"
    "lang (Star (Seq (OneOrMore (Cls isspace)) cap_word)) m2"
    unfolding entity_re_def lang_Seq_iff lang_WordB_iff by auto
  have step: "x \<noteq> [] \<and> cls_alnum (last x)" if "lang (Seq (OneOrMore (Cls isspace)) cap_word) x" for x
  proof -
    from that obtain x1 x2 where "x = x1 @ x2" "lang cap_word x2"
      unfolding lang_Seq_iff by auto
    with lang_cap_word[of x2] show ?thesis by (cases x2) auto
  qed
  from lang_Star_last[OF m(3) refl step] have m2: "m2 = [] \<or> cls_alnum (last m2)" by blast
  from lang_cap_word[OF m(2)] have m1: "2 \<le> length m1" "cls_upper (hd m1)" "cls_alnum (last m1)"
    by auto
  then have "m1 \<noteq> []" by auto
  then show ?thesis using m m1 m2 by (auto simp: last_append)
qed

lemma not_isspace_upper: "cls_upper c \<Longrightarrow> \<not> isspace c"
  by (simp add: cls_upper_def isspace_def)

lemma not_isspace_alnum: "cls_alnum c \<Longrightarrow> \<not> isspace c"
  by (auto simp: cls_alnum_def cls_upper_def cls_lower_def cls_digit_def isspace_def)

lemma strip_id: "s \<noteq> [] \<Longrightarrow> \<not> isspace (hd s) \<Longrightarrow> \<not> isspace (last s) \<Longrightarrow> strip s = s"
proof -
  assume a: "s \<noteq> []" "\<not> isspace (hd s)" "\<not> isspace (last s)"
  then have 1: "dropWhile isspace s = s" by (cases s) auto
  from a have "rev s \<noteq> []" "\<not> isspace (hd (rev s))" by (auto simp: hd_rev)
  then have 2: "dropWhile isspace (rev s) = rev s" by (cases "rev s") auto
  show ?thesis by (simp add: strip_def 1 2)
qed

lemma entity_candidate_strip:
  assumes "c \<in> set (findall w entity_re s)"
  shows "strip c = c"
proof -
  from findall_sound[OF assms] have "lang entity_re c" by blast
  from lang_entity_re[OF this] have "2 \<le> length c" "cls_upper (hd c)" "cls_alnum (last c)" by auto
  then show ?thesis
    by (intro strip_id) (auto simp: not_isspace_upper not_isspace_alnum)
qed

section \<open>Entity extraction\<close>

text \<open>
  Claim C7.  For every input text (and whatever the Unicode tables say), every phrase that
  entity extraction returns has at least 3 code points and is not one of the nine stop
  phrases \<open>The\<close>, \<open>This\<close>, \<open>That\<close>, \<open>And\<close>, \<open>For\<close>, \<open>With\<close>, \<open>From\<close>, \<open>Project\<close>,
  \<open>Customer\<close>.  The filter looks at the candidate before \<open>strip()\<close>; a candidate starts with
  a capital letter and ends with a letter or digit, so \<open>strip()\<close> returns it unchanged.
\<close>

theorem find_entities_long_and_not_stop:
  "\<forall>p\<in>set (find_entities U text). 3 \<le> length p \<and> p \<notin> set entity_stop"
proof
  fix p assume "p \<in> set (find_entities U text)"
  then obtain c where c: "c \<in> set (findall (is_word U) entity_re (None, text))"
    "c \<notin> set entity_stop" "2 < length c" "p = strip c"
    by (auto simp: find_entities_def)
  from entity_candidate_strip[OF c(1)] c show "3 \<le> length p \<and> p \<notin> set entity_stop" by simp
qed

text \<open>The equations that evaluate the extractor on a concrete text.\<close>

lemmas regex_eval = entity_re_def cap_word_def OneOrMore_def topic_re_def ends.simps findall.simps
  boundary_def is_word_def cls_upper_def cls_lower_def cls_digit_def cls_alnum_def cls_alpha_def
  isspace_def

lemma find_entities_example:
  "find_entities ascii_tables (lit ''The Acme Corp and Ab'') = [lit ''The Acme Corp'']"
  by (simp add: find_entities_def regex_eval strip_def lit_def entity_stop_def ascii_tables_def)

theorem find_entities_long_and_not_stop_witness:
  "find_entities ascii_tables (lit ''The Acme Corp and Ab'') = [lit ''The Acme Corp'']
   \<and> 3 \<le> length (lit ''The Acme Corp'') \<and> lit ''The Acme Corp'' \<notin> set entity_stop"
  using find_entities_long_and_not_stop[of ascii_tables "lit ''The Acme Corp and Ab''"]
  by (simp add: find_entities_example)

subsection \<open>Counters\<close>

lemma keys_counter_add:
  "map fst (counter_add k n c) = (if k \<in> set (map fst c) then map fst c else map fst c @ [k])"
  by (induction c) (fastforce simp: image_iff)+

lemma counter_get_counter_add:
  "counter_get (counter_add k n c) k' = (if k' = k then counter_get c k + n else counter_get c k')"
  by (induction c) (auto simp: counter_get_def)

lemma Counter_snoc: "Counter (xs @ [x]) = counter_add x 1 (Counter xs)"
  by (simp add: Counter_def)

lemma Counter_Nil: "Counter [] = []"
  by (simp add: Counter_def)

lemma keys_Counter_snoc:
  "map fst (Counter (xs @ [x])) =
     (if x \<in> set (map fst (Counter xs)) then map fst (Counter xs) else map fst (Counter xs) @ [x])"
  by (simp only: Counter_snoc keys_counter_add)

lemma set_keys_Counter: "set (map fst (Counter xs)) = set xs"
  by (induction xs rule: rev_induct) (auto simp: Counter_Nil keys_Counter_snoc simp del: set_map)

lemma distinct_keys_Counter: "distinct (map fst (Counter xs))"
proof (induction xs rule: rev_induct)
  case Nil
  show ?case by (simp add: Counter_Nil)
next
  case (snoc x xs)
  then show ?case
    by (simp only: keys_Counter_snoc) (simp del: set_map)
qed

lemma counter_get_Counter: "counter_get (Counter xs) k = count_list xs k"
proof (induction xs rule: rev_induct)
  case Nil
  show ?case by (simp add: Counter_Nil counter_get_def)
next
  case (snoc x xs)
  then show ?case by (auto simp: Counter_snoc counter_get_counter_add)
qed

lemma counter_get_entry:
  "distinct (map fst c) \<Longrightarrow> (k, v) \<in> set c \<Longrightarrow> counter_get c k = v"
  by (simp add: counter_get_def)

lemma Counter_entry: "(k, v) \<in> set (Counter xs) \<Longrightarrow> v = count_list xs k"
  using counter_get_entry[OF distinct_keys_Counter, of k v xs] counter_get_Counter[of xs k]
  by simp

subsection \<open>First occurrences\<close>

lemma first_index_less: "x \<in> set xs \<Longrightarrow> first_index xs x < length xs"
  unfolding first_index_def by (induction xs) auto

lemma first_index_append:
  "first_index (xs @ ys) x = (if x \<in> set xs then first_index xs x else length xs + first_index ys x)"
  unfolding first_index_def by (induction xs) auto

lemma first_index_nth: "distinct xs \<Longrightarrow> i < length xs \<Longrightarrow> first_index xs (xs ! i) = i"
proof (induction xs arbitrary: i)
  case Nil
  then show ?case by simp
next
  case (Cons x xs)
  then show ?case by (cases i) (auto simp: first_index_def)
qed

lemma first_index_inj:
  "a \<in> set xs \<Longrightarrow> b \<in> set xs \<Longrightarrow> first_index xs a = first_index xs b \<Longrightarrow> a = b"
  unfolding first_index_def by (induction xs) (auto split: if_splits)

lemma first_index_filter_mono:
  "a \<in> set xs \<Longrightarrow> b \<in> set xs \<Longrightarrow> P a \<Longrightarrow> P b \<Longrightarrow> first_index xs a < first_index xs b
   \<Longrightarrow> first_index (filter P xs) a < first_index (filter P xs) b"
  unfolding first_index_def by (induction xs) (auto split: if_splits)

lemma first_index_filter_reflect:
  assumes "a \<in> set xs" "b \<in> set xs" "P a" "P b"
    and lt: "first_index (filter P xs) a < first_index (filter P xs) b"
  shows "first_index xs a < first_index xs b"
proof (rule ccontr)
  assume "\<not> first_index xs a < first_index xs b"
  moreover have "a \<noteq> b" using lt by auto
  ultimately have "first_index xs b < first_index xs a"
    using first_index_inj[OF assms(1,2)] by force
  from first_index_filter_mono[OF assms(2,1,4,3) this] lt show False by simp
qed

lemma first_index_map_fst:
  "distinct (map fst c) \<Longrightarrow> x \<in> set c \<Longrightarrow> first_index (map fst c) (fst x) = first_index c x"
  unfolding first_index_def by (induction c) (auto simp: rev_image_eqI)

lemma Counter_first_seen:
  assumes "a \<in> set xs" "b \<in> set xs"
  shows "first_index (map fst (Counter xs)) a < first_index (map fst (Counter xs)) b
         \<longleftrightarrow> first_index xs a < first_index xs b"
  using assms
proof (induction xs rule: rev_induct)
  case Nil
  then show ?case by simp
next
  case (snoc x xs)
  let ?ks = "map fst (Counter xs)"
  have ks: "set ?ks = set xs" by (rule set_keys_Counter)
  have len: "\<And>y. y \<in> set xs \<Longrightarrow> first_index ?ks y < length ?ks \<and> first_index xs y < length xs"
    using first_index_less ks by metis
  show ?case
  proof (cases "x \<in> set xs")
    case True
    then have "a \<in> set xs" "b \<in> set xs" using snoc.prems by auto
    with snoc.IH True show ?thesis
      by (simp only: keys_Counter_snoc ks first_index_append if_True)
  next
    case False
    have *: "first_index (map fst (Counter (xs @ [x]))) y =
        (if y \<in> set xs then first_index ?ks y else length ?ks + first_index [x] y)" for y
      using False by (simp only: keys_Counter_snoc ks first_index_append if_False)
    have **: "first_index (xs @ [x]) y =
        (if y \<in> set xs then first_index xs y else length xs + first_index [x] y)" for y
      by (rule first_index_append)
    consider "a \<in> set xs" "b \<in> set xs" | "a \<in> set xs" "b = x" | "a = x" "b \<in> set xs" | "a = x" "b = x"
      using snoc.prems by auto
    then show ?thesis
    proof cases
      case 1
      with snoc.IH show ?thesis by (simp add: * **)
    next
      case 2
      with False len[of a] show ?thesis by (simp add: * **)
    next
      case 3
      with False len[of b] show ?thesis by (simp add: * **)
    next
      case 4
      then show ?thesis by simp
    qed
  qed
qed

subsection \<open>Topic words\<close>

lemma lang_AtLeast_Cls:
  "lang (AtLeast n (Cls p)) m \<Longrightarrow> n \<le> length m \<and> (\<forall>c\<in>set m. p c)"
proof (induction n arbitrary: m)
  case 0
  then show ?case using lang_Star_Cls[of "Star (Cls p)" m p] by simp
next
  case (Suc n)
  from Suc.prems obtain c m2 where m: "m = c # m2" "p c" "lang (AtLeast n (Cls p)) m2"
    by (auto simp: lang_Seq_iff lang_Cls_iff)
  with Suc.IH[OF m(3)] show ?case by simp
qed

lemma lang_topic_re:
  assumes "lang topic_re m"
  shows "5 \<le> length m \<and> (\<forall>c\<in>set m. cls_alpha c)"
proof -
  from assms have "lang (AtLeast 5 (Cls cls_alpha)) m"
    unfolding topic_re_def lang_Seq_iff lang_WordB_iff by auto
  then show ?thesis by (rule lang_AtLeast_Cls)
qed

lemma topic_words_props:
  assumes "w \<in> set (topic_words U text)"
  shows "5 \<le> length w" "\<forall>c\<in>set w. cls_alpha c" "\<exists>pre post. u_lower U text = pre @ w @ post"
    "w \<notin> set topic_stop"
proof -
  from assms have w: "w \<in> set (findall (is_word U) topic_re (None, u_lower U text))"
    and "w \<notin> set topic_stop"
    by (auto simp: topic_words_def)
  then show "w \<notin> set topic_stop" by simp
  from findall_sound[OF w] have l: "lang topic_re w" and "\<exists>pre post. u_lower U text = pre @ w @ post"
    by auto
  then show "\<exists>pre post. u_lower U text = pre @ w @ post" by simp
  from lang_topic_re[OF l] show "5 \<le> length w" "\<forall>c\<in>set w. cls_alpha c" by auto
qed

text \<open>
  A match of either pattern consumes at least two code points, so the scan of \<open>findall\<close>
  never meets an empty match.
\<close>

lemma entity_match_consumes:
  assumes "e \<in> set (ends w entity_re s)"
  shows "length (snd e) + 2 \<le> length (snd s)"
proof -
  from ends_sound[OF assms] obtain m where m: "snd s = m @ snd e" "lang entity_re m" by blast
  from lang_entity_re[OF m(2)] m(1) show ?thesis by simp
qed

lemma topic_match_consumes:
  assumes "e \<in> set (ends w topic_re s)"
  shows "length (snd e) + 5 \<le> length (snd s)"
proof -
  from ends_sound[OF assms] obtain m where m: "snd s = m @ snd e" "lang topic_re m" by blast
  from lang_topic_re[OF m(2)] m(1) show ?thesis by simp
qed

lemma find_topics_alt:
  "find_topics U text n = map fst (most_common n (Counter (topic_words U text)))"
  by (simp add: find_topics_def topic_words_def)

subsection \<open>\<open>most_common\<close>\<close>

lemma most_common_take: "most_common n c = take n (most_common (length c) c)"
  by (simp add: most_common_def)

lemma set_most_common_all: "set (most_common (length c) c) = set c"
  by (simp add: most_common_def)

lemma most_common_subset: "set (most_common n c) \<subseteq> set c"
  unfolding most_common_def using set_take_subset[of n "sort_key (\<lambda>kv. - int (snd kv)) c"]
  by simp

lemma distinct_keys_sort_key: "distinct (map fst c) \<Longrightarrow> distinct (map fst (sort_key f c))"
  by (simp add: distinct_map)

lemma distinct_keys_most_common:
  "distinct (map fst c) \<Longrightarrow> distinct (map fst (most_common n c))"
  unfolding most_common_def take_map[symmetric]
  by (intro distinct_take distinct_keys_sort_key)

text \<open>
  The ranking: an earlier entry has a larger count, or the same count and an earlier place
  in the counter.
\<close>

lemma most_common_order:
  assumes d: "distinct (map fst c)" and ij: "i < j" "j < length (most_common n c)"
  shows "snd (most_common n c ! j) < snd (most_common n c ! i) \<or>
         (snd (most_common n c ! j) = snd (most_common n c ! i) \<and>
          first_index c (most_common n c ! i) < first_index c (most_common n c ! j))"
proof -
  let ?f = "\<lambda>kv::'a \<times> nat. - int (snd kv)"
  let ?s = "sort_key ?f c"
  have js: "j < length ?s" "j < n" using ij by (auto simp: most_common_def)
  then have is': "i < length ?s" "i < n" using ij by auto
  have nth: "most_common n c ! i = ?s ! i" "most_common n c ! j = ?s ! j"
    using js is' by (auto simp: most_common_def)
  have dc: "distinct c" using d by (rule distinct_map[THEN iffD1, THEN conjunct1])
  then have ds: "distinct ?s" by simp
  have "sorted (map ?f ?s)" by (rule sorted_sort_key)
  then have "map ?f ?s ! i \<le> map ?f ?s ! j"
    using ij(1) js(1) by (intro sorted_nth_mono) auto
  then have le: "snd (?s ! j) \<le> snd (?s ! i)" using js is' by simp
  show ?thesis
  proof (cases "snd (?s ! j) = snd (?s ! i)")
    case False
    with le show ?thesis by (simp add: nth)
  next
    case True
    let ?P = "\<lambda>y. ?f y = ?f (?s ! i)"
    have mem: "?s ! i \<in> set c" "?s ! j \<in> set c"
      using nth_mem[of i ?s] nth_mem[of j ?s] js is' by simp_all
    then have mem': "?s ! i \<in> set ?s" "?s ! j \<in> set ?s" by simp_all
    have P: "?P (?s ! i)" "?P (?s ! j)" using True by auto
    have "first_index ?s (?s ! i) < first_index ?s (?s ! j)"
      using first_index_nth[OF ds] js is' ij(1) by simp
    from first_index_filter_mono[OF mem' P this]
    have "first_index (filter ?P c) (?s ! i) < first_index (filter ?P c) (?s ! j)"
      by (simp only: sort_key_stable)
    from first_index_filter_reflect[OF _ _ P this] mem
    have "first_index c (?s ! i) < first_index c (?s ! j)" by simp
    with True show ?thesis by (simp add: nth)
  qed
qed

section \<open>Topic extraction\<close>

text \<open>
  Claim C8.  For every input text and every \<open>N\<close>, topic extraction returns at most \<open>N\<close> words
  without repetition; each is a run of at least 5 lowercase ASCII letters of the lowercased
  text and no stop word; the words come in the order of descending occurrence count (the
  count among the matches that are not stop words), words of equal count in the order of
  their first occurrence; and they are the first \<open>N\<close> of the ranking of all distinct words.
  The one thing used about \<open>str.lower\<close> is that its result holds no \<open>A..Z\<close>.
\<close>

theorem find_topics_ranked:
  assumes lower: "\<forall>c\<in>set (u_lower U text). \<not> cls_upper c"
  shows "length (find_topics U text n) \<le> n \<and>
    distinct (find_topics U text n) \<and>
    (\<forall>w\<in>set (find_topics U text n).
        5 \<le> length w \<and> (\<forall>c\<in>set w. cls_lower c) \<and> w \<notin> set topic_stop \<and>
        w \<in> set (topic_words U text) \<and> (\<exists>pre post. u_lower U text = pre @ w @ post)) \<and>
    (\<forall>i j. i < j \<and> j < length (find_topics U text n) \<longrightarrow>
        count_list (topic_words U text) (find_topics U text n ! j)
          < count_list (topic_words U text) (find_topics U text n ! i) \<or>
        (count_list (topic_words U text) (find_topics U text n ! j)
          = count_list (topic_words U text) (find_topics U text n ! i) \<and>
         first_index (topic_words U text) (find_topics U text n ! i)
          < first_index (topic_words U text) (find_topics U text n ! j))) \<and>
    find_topics U text n = take n (find_topics U text (length (topic_words U text))) \<and>
    set (find_topics U text (length (topic_words U text))) = set (topic_words U text)"
proof -
  let ?ws = "topic_words U text"
  let ?c = "Counter ?ws"
  let ?r = "find_topics U text n"
  have r: "?r = map fst (most_common n ?c)" by (rule find_topics_alt)
  have dk: "distinct (map fst ?c)" by (rule distinct_keys_Counter)
  have len_c: "length ?c \<le> length ?ws"
    using distinct_card[OF dk] card_length[of ?ws] by (simp add: set_keys_Counter del: set_map)
  have 1: "length ?r \<le> n" by (simp add: r most_common_def)
  have 2: "distinct ?r" unfolding r using dk by (rule distinct_keys_most_common)
  have sub: "set ?r \<subseteq> set ?ws"
  proof -
    have "set ?r \<subseteq> set (map fst ?c)" unfolding r using most_common_subset[of n ?c] by auto
    then show ?thesis by (simp only: set_keys_Counter)
  qed
  have 3: "5 \<le> length w \<and> (\<forall>c\<in>set w. cls_lower c) \<and> w \<notin> set topic_stop \<and>
      w \<in> set ?ws \<and> (\<exists>pre post. u_lower U text = pre @ w @ post)" if "w \<in> set ?r" for w
  proof -
    from that sub have w: "w \<in> set ?ws" by auto
    from topic_words_props[OF w] obtain pre post where p: "5 \<le> length w" "\<forall>c\<in>set w. cls_alpha c"
      "u_lower U text = pre @ w @ post" "w \<notin> set topic_stop" by blast
    have "\<forall>c\<in>set w. \<not> cls_upper c" using lower p(3) by auto
    with p(2) have "\<forall>c\<in>set w. cls_lower c" by (auto simp: cls_alpha_def)
    with p w show ?thesis by blast
  qed
  have 4: "count_list ?ws (?r ! j) < count_list ?ws (?r ! i) \<or>
        (count_list ?ws (?r ! j) = count_list ?ws (?r ! i) \<and>
         first_index ?ws (?r ! i) < first_index ?ws (?r ! j))" if ij: "i < j" "j < length ?r" for i j
  proof -
    let ?m = "most_common n ?c"
    have j: "j < length ?m" and i: "i < length ?m" using ij by (auto simp: r)
    have ri: "?r ! i = fst (?m ! i)" and rj: "?r ! j = fst (?m ! j)" using i j by (simp_all add: r)
    have mi: "?m ! i \<in> set ?c" and mj: "?m ! j \<in> set ?c"
      using most_common_subset[of n ?c] nth_mem[OF i] nth_mem[OF j] by auto
    have ci: "snd (?m ! i) = count_list ?ws (?r ! i)"
      using Counter_entry[of "fst (?m ! i)" "snd (?m ! i)" ?ws] mi ri by simp
    have cj: "snd (?m ! j) = count_list ?ws (?r ! j)"
      using Counter_entry[of "fst (?m ! j)" "snd (?m ! j)" ?ws] mj rj by simp
    have wi: "?r ! i \<in> set ?ws" and wj: "?r ! j \<in> set ?ws"
      using sub nth_mem[of i ?r] nth_mem[of j ?r] ij by auto
    have fi: "first_index ?c (?m ! i) < first_index ?c (?m ! j) \<longleftrightarrow>
        first_index ?ws (?r ! i) < first_index ?ws (?r ! j)"
      using first_index_map_fst[OF dk mi] first_index_map_fst[OF dk mj]
        Counter_first_seen[OF wi wj] ri rj by simp
    from most_common_order[OF dk ij(1) j] show ?thesis
      unfolding ci cj fi .
  qed
  have 5: "?r = take n (find_topics U text (length ?ws))"
  proof -
    have "most_common (length ?ws) ?c = most_common (length ?c) ?c"
      using len_c by (simp add: most_common_def)
    then show ?thesis
      unfolding find_topics_alt using most_common_take[of n ?c] by (simp add: take_map)
  qed
  have 6: "set (find_topics U text (length ?ws)) = set ?ws"
  proof -
    have "most_common (length ?ws) ?c = most_common (length ?c) ?c"
      using len_c by (simp add: most_common_def)
    then have "set (find_topics U text (length ?ws)) = set (map fst ?c)"
      unfolding find_topics_alt using set_most_common_all[of ?c] by simp
    then show ?thesis by (simp only: set_keys_Counter)
  qed
  from 1 2 3 4 5 6 show ?thesis by blast
qed

lemmas counter_eval = Counter_def most_common_def

lemma AtLeast_5: "AtLeast 5 r = Seq r (Seq r (Seq r (Seq r (Seq r (Star r)))))"
  by (simp add: eval_nat_numeral)

lemma topic_words_example:
  "topic_words ascii_tables (lit ''alpha cloud betas Betas gamma9 alpha extra'')
     = [lit ''alpha'', lit ''betas'', lit ''betas'', lit ''alpha'', lit ''extra'']"
  by (simp add: topic_words_def regex_eval AtLeast_5 lit_def topic_stop_def ascii_tables_def)

lemma find_topics_example:
  "find_topics ascii_tables (lit ''alpha cloud betas Betas gamma9 alpha extra'') 2
     = [lit ''alpha'', lit ''betas'']"
  unfolding find_topics_alt topic_words_example
  by (simp add: counter_eval lit_def)

theorem find_topics_ranked_witness:
  "find_topics ascii_tables (lit ''alpha cloud betas Betas gamma9 alpha extra'') 2
     = [lit ''alpha'', lit ''betas'']
   \<and> length (find_topics ascii_tables (lit ''alpha cloud betas Betas gamma9 alpha extra'') 2) \<le> 2
   \<and> count_list (topic_words ascii_tables (lit ''alpha cloud betas Betas gamma9 alpha extra''))
        (lit ''betas'')
      = count_list (topic_words ascii_tables (lit ''alpha cloud betas Betas gamma9 alpha extra''))
        (lit ''alpha'')
   \<and> first_index (topic_words ascii_tables (lit ''alpha cloud betas Betas gamma9 alpha extra''))
        (lit ''alpha'')
      < first_index (topic_words ascii_tables (lit ''alpha cloud betas Betas gamma9 alpha extra''))
        (lit ''betas'')"
proof -
  let ?T = "lit ''alpha cloud betas Betas gamma9 alpha extra''"
  have h: "\<forall>c\<in>set (u_lower ascii_tables ?T). \<not> cls_upper c"
    by (simp add: ascii_tables_def lit_def cls_upper_def)
  have c: "count_list (topic_words ascii_tables ?T) (lit ''betas'')
      = count_list (topic_words ascii_tables ?T) (lit ''alpha'')"
    unfolding topic_words_example by (simp add: lit_def)
  from find_topics_ranked[OF h, of 2] have
    "\<forall>i j. i < j \<and> j < length (find_topics ascii_tables ?T 2) \<longrightarrow>
        count_list (topic_words ascii_tables ?T) (find_topics ascii_tables ?T 2 ! j)
          < count_list (topic_words ascii_tables ?T) (find_topics ascii_tables ?T 2 ! i) \<or>
        (count_list (topic_words ascii_tables ?T) (find_topics ascii_tables ?T 2 ! j)
          = count_list (topic_words ascii_tables ?T) (find_topics ascii_tables ?T 2 ! i) \<and>
         first_index (topic_words ascii_tables ?T) (find_topics ascii_tables ?T 2 ! i)
          < first_index (topic_words ascii_tables ?T) (find_topics ascii_tables ?T 2 ! j))"
    and l: "length (find_topics ascii_tables ?T 2) \<le> 2"
    by blast+
  from this(1)[rule_format, of 0 1] c
  have "first_index (topic_words ascii_tables ?T) (lit ''alpha'')
      < first_index (topic_words ascii_tables ?T) (lit ''betas'')"
    by (simp add: find_topics_example)
  with c l show ?thesis by (simp add: find_topics_example)
qed

section \<open>Running a sequence of statements\<close>

lemma exec_Nil [simp]: "exec [] g = g"
  by (simp add: exec_def)

lemma exec_Cons [simp]: "exec (s # steps) g = exec steps (s g)"
  by (simp add: exec_def)

lemma exec_append [simp]: "exec (xs @ ys) g = exec ys (exec xs g)"
  by (simp add: exec_def)

lemma exec_concat_map_fold:
  assumes "\<And>x g. x \<in> set xs \<Longrightarrow> f (exec (h x) g) = k (f g) x"
  shows "f (exec (concat (map h xs)) g) = foldl k (f g) xs"
  using assms by (induction xs arbitrary: g) simp_all

lemma exec_concat_map_same:
  assumes "\<And>x g. x \<in> set xs \<Longrightarrow> f (exec (h x) g) = f g"
  shows "f (exec (concat (map h xs)) g) = f g"
  using assms by (induction xs arbitrary: g) simp_all

lemma exec_concat_map_append:
  assumes "\<And>x g. x \<in> set xs \<Longrightarrow> f (exec (h x) g) = f g @ k x"
  shows "f (exec (concat (map h xs)) g) = f g @ concat (map k xs)"
  using assms by (induction xs arbitrary: g) simp_all

lemma exec_map_append_edge [simp]:
  "exec (map (\<lambda>x. append_edge (h x)) xs) g = g\<lparr>edges := edges g @ map h xs\<rparr>"
  by (induction xs arbitrary: g) (simp_all add: append_edge_def)

lemmas stmt_defs = set_file_node_def set_file_text_def update_entity_globals_def
  update_topic_globals_def ensure_entity_node_def ensure_topic_node_def append_edge_def

section \<open>The edges of a run\<close>

lemma edges_contains_entity_steps:
  "edges (exec (contains_entity_steps fid ec) g)
     = edges g @ [contains_entity_edge fid (entity_id_of (fst ec)) (snd ec)]"
  by (simp add: contains_entity_steps_def Let_def stmt_defs)

lemma edges_contains_topic_steps:
  "edges (exec (contains_topic_steps fid tc) g)
     = edges g @ [contains_topic_edge fid (topic_id_of (fst tc)) (snd tc)]"
  by (simp add: contains_topic_steps_def Let_def stmt_defs)

lemma edges_collect_file: "edges (exec (collect_file U w) g) = edges g @ file_edges U w"
proof (cases "strip (w_text w) = []")
  case True
  then show ?thesis by (simp add: collect_file_def file_edges_def)
next
  case False
  have 1: "edges (exec (concat (map (contains_entity_steps fid) cs)) g')
      = edges g' @ concat (map (\<lambda>ec. [contains_entity_edge fid (entity_id_of (fst ec)) (snd ec)]) cs)"
    for fid cs g'
    by (rule exec_concat_map_append) (rule edges_contains_entity_steps)
  have 2: "edges (exec (concat (map (contains_topic_steps fid) cs)) g')
      = edges g' @ concat (map (\<lambda>tc. [contains_topic_edge fid (topic_id_of (fst tc)) (snd tc)]) cs)"
    for fid cs g'
    by (rule exec_concat_map_append) (rule edges_contains_topic_steps)
  have c: "concat (map (\<lambda>x. [h x]) xs) = map h xs" for h :: "'a \<Rightarrow> 'b" and xs
    by (induction xs) simp_all
  show ?thesis using False
    by (simp add: collect_file_def file_edges_def Let_def 1 2 c stmt_defs)
qed

lemma edges_first_pass:
  "edges (exec (first_pass U files) g) = edges g @ concat (map (file_edges U) files)"
  unfolding first_pass_def
  by (rule exec_concat_map_append) (rule edges_collect_file)

lemma entity_entity_steps_alt:
  "entity_entity_steps fid ents = map append_edge (entity_entity_edges fid ents)"
  by (simp add: entity_entity_steps_def entity_entity_edges_def index_pairs_def Let_def
      map_concat comp_def)

lemma entity_topic_steps_alt:
  "entity_topic_steps fid ents tops = map append_edge (entity_topic_edges fid ents tops)"
  by (simp add: entity_topic_steps_def entity_topic_edges_def Let_def map_concat comp_def)

lemma exec_map_append_edge':
  "exec (map append_edge es) g = g\<lparr>edges := edges g @ es\<rparr>"
  using exec_map_append_edge[of "\<lambda>x. x" es g] by simp

lemma exec_cooccur_file:
  "exec (cooccur_file ord U ft) g = g\<lparr>edges := edges g @ cooccur_edges ord U ft\<rparr>"
  by (simp add: cooccur_file_def cooccur_edges_def Let_def entity_entity_steps_alt
      entity_topic_steps_alt exec_map_append_edge')

lemma exec_cooccur_files:
  "exec (concat (map (cooccur_file ord U) fts)) g
     = g\<lparr>edges := edges g @ concat (map (cooccur_edges ord U) fts)\<rparr>"
  by (induction fts arbitrary: g) (simp_all add: exec_cooccur_file)

lemma build_kg_alt:
  "build_kg ord U files =
     (exec (first_pass U files) init_kg)
       \<lparr>edges := concat (map (file_edges U) files)
          @ concat (map (cooccur_edges ord U) (file_texts (exec (first_pass U files) init_kg)))\<rparr>"
  by (simp add: build_kg_def Let_def second_pass_def exec_cooccur_files edges_first_pass init_kg_def)

section \<open>The state after the first pass\<close>

lemma ensure_entity_node_alt:
  "ensure_entity_node (entity_id_of e) e g
     = g\<lparr>entity_nodes := ensure_in (entity_id_of e) (entity_node_of e) (entity_nodes g)\<rparr>"
  by (simp add: ensure_entity_node_def ensure_in_def entity_node_of_def)

lemma ensure_topic_node_alt:
  "ensure_topic_node (topic_id_of t) t g
     = g\<lparr>topic_nodes := ensure_in (topic_id_of t) (topic_node_of t) (topic_nodes g)\<rparr>"
  by (simp add: ensure_topic_node_def ensure_in_def topic_node_of_def)

lemma exec_contains_entity_steps:
  "exec (contains_entity_steps fid ec) g
     = g\<lparr>entity_nodes := ensure_in (entity_id_of (fst ec)) (entity_node_of (fst ec)) (entity_nodes g),
         edges := edges g @ [contains_entity_edge fid (entity_id_of (fst ec)) (snd ec)]\<rparr>"
  by (simp add: contains_entity_steps_def Let_def ensure_entity_node_alt append_edge_def)

lemma exec_contains_topic_steps:
  "exec (contains_topic_steps fid tc) g
     = g\<lparr>topic_nodes := ensure_in (topic_id_of (fst tc)) (topic_node_of (fst tc)) (topic_nodes g),
         edges := edges g @ [contains_topic_edge fid (topic_id_of (fst tc)) (snd tc)]\<rparr>"
  by (simp add: contains_topic_steps_def Let_def ensure_topic_node_alt append_edge_def)

lemma exec_contains_entity_loop:
  "exec (concat (map (contains_entity_steps fid) cs)) g
     = g\<lparr>entity_nodes :=
            foldl (\<lambda>d e. ensure_in (entity_id_of e) (entity_node_of e) d) (entity_nodes g) (map fst cs),
         edges := edges g
            @ map (\<lambda>ec. contains_entity_edge fid (entity_id_of (fst ec)) (snd ec)) cs\<rparr>"
  by (induction cs arbitrary: g) (simp_all add: exec_contains_entity_steps)

lemma exec_contains_topic_loop:
  "exec (concat (map (contains_topic_steps fid) cs)) g
     = g\<lparr>topic_nodes :=
            foldl (\<lambda>d t. ensure_in (topic_id_of t) (topic_node_of t) d) (topic_nodes g) (map fst cs),
         edges := edges g
            @ map (\<lambda>tc. contains_topic_edge fid (topic_id_of (fst tc)) (snd tc)) cs\<rparr>"
  by (induction cs arbitrary: g) (simp_all add: exec_contains_topic_steps)

lemma exec_collect_file:
  "exec (collect_file U w) g =
     (if strip (w_text w) = [] then g
      else g\<lparr>file_nodes := dict_set (file_id_of (w_path w)) (file_node_of w) (file_nodes g),
             file_texts := dict_set (file_id_of (w_path w)) (w_text w) (file_texts g),
             entity_global_counts :=
               counter_update (entity_global_counts g) (Counter (find_entities U (w_text w))),
             topic_global_counts :=
               counter_update (topic_global_counts g) (Counter (find_topics U (w_text w) 10)),
             entity_nodes :=
               foldl (\<lambda>d e. ensure_in (entity_id_of e) (entity_node_of e) d) (entity_nodes g)
                 (map fst (Counter (find_entities U (w_text w)))),
             topic_nodes :=
               foldl (\<lambda>d t. ensure_in (topic_id_of t) (topic_node_of t) d) (topic_nodes g)
                 (map fst (Counter (find_topics U (w_text w) 10))),
             edges := edges g @ file_edges U w\<rparr>)"
  by (simp add: collect_file_def Let_def exec_contains_entity_loop exec_contains_topic_loop
      file_edges_def file_node_of_def set_file_node_def set_file_text_def
      update_entity_globals_def update_topic_globals_def)

lemma foldl_if_filter:
  "foldl (\<lambda>a x. if P x then a else f a x) a xs = foldl f a (filter (\<lambda>x. \<not> P x) xs)"
  by (induction xs arbitrary: a) simp_all

lemma first_pass_field:
  assumes "\<And>w g. f (exec (collect_file U w) g) = (if strip (w_text w) = [] then f g else k (f g) w)"
  shows "f (exec (first_pass U files) g) = foldl k (f g) (registered files)"
proof -
  have "f (exec (first_pass U files) g)
      = foldl (\<lambda>a w. if strip (w_text w) = [] then a else k a w) (f g) files"
    unfolding first_pass_def by (rule exec_concat_map_fold) (rule assms)
  then show ?thesis by (simp add: foldl_if_filter registered_def)
qed

lemma file_nodes_first_pass:
  "file_nodes (exec (first_pass U files) g)
     = foldl (\<lambda>d w. dict_set (file_id_of (w_path w)) (file_node_of w) d) (file_nodes g)
         (registered files)"
  by (rule first_pass_field) (simp add: exec_collect_file)

lemma file_texts_first_pass:
  "file_texts (exec (first_pass U files) g)
     = foldl (\<lambda>d w. dict_set (file_id_of (w_path w)) (w_text w) d) (file_texts g)
         (registered files)"
  by (rule first_pass_field) (simp add: exec_collect_file)

lemma entity_globals_first_pass:
  "entity_global_counts (exec (first_pass U files) g)
     = foldl (\<lambda>c w. counter_update c (Counter (find_entities U (w_text w))))
         (entity_global_counts g) (registered files)"
  by (rule first_pass_field) (simp add: exec_collect_file)

lemma topic_globals_first_pass:
  "topic_global_counts (exec (first_pass U files) g)
     = foldl (\<lambda>c w. counter_update c (Counter (find_topics U (w_text w) 10)))
         (topic_global_counts g) (registered files)"
  by (rule first_pass_field) (simp add: exec_collect_file)

lemma entity_nodes_first_pass:
  "entity_nodes (exec (first_pass U files) g)
     = foldl (\<lambda>d w. foldl (\<lambda>d e. ensure_in (entity_id_of e) (entity_node_of e) d) d
                 (map fst (Counter (find_entities U (w_text w)))))
         (entity_nodes g) (registered files)"
  by (rule first_pass_field) (simp add: exec_collect_file)

lemma topic_nodes_first_pass:
  "topic_nodes (exec (first_pass U files) g)
     = foldl (\<lambda>d w. foldl (\<lambda>d t. ensure_in (topic_id_of t) (topic_node_of t) d) d
                 (map fst (Counter (find_topics U (w_text w) 10))))
         (topic_nodes g) (registered files)"
  by (rule first_pass_field) (simp add: exec_collect_file)

subsection \<open>Dictionaries\<close>

lemma dict_keys_Nil [simp]: "dict_keys [] = []"
  by (simp add: dict_keys_def)

lemma keys_dict_set:
  "dict_keys (dict_set k v d) = (if k \<in> set (dict_keys d) then dict_keys d else dict_keys d @ [k])"
  unfolding dict_keys_def by (induction d) (fastforce simp: image_iff)+

lemma set_keys_dict_set [simp]: "set (dict_keys (dict_set k v d)) = insert k (set (dict_keys d))"
  by (auto simp: keys_dict_set)

lemma distinct_keys_dict_set [simp]:
  "distinct (dict_keys (dict_set k v d)) = distinct (dict_keys d)"
  by (auto simp: keys_dict_set)

lemma dict_set_new: "k \<notin> set (dict_keys d) \<Longrightarrow> dict_set k v d = d @ [(k, v)]"
  unfolding dict_keys_def by (induction d) auto

lemma keys_ensure_in:
  "dict_keys (ensure_in k v d) = (if k \<in> set (dict_keys d) then dict_keys d else dict_keys d @ [k])"
  by (simp add: ensure_in_def keys_dict_set)

lemma set_keys_ensure_in [simp]: "set (dict_keys (ensure_in k v d)) = insert k (set (dict_keys d))"
  by (auto simp: keys_ensure_in)

lemma distinct_keys_ensure_in [simp]:
  "distinct (dict_keys (ensure_in k v d)) = distinct (dict_keys d)"
  by (auto simp: keys_ensure_in)

lemma ensure_in_cases: "ensure_in k v d = d \<or> (k \<notin> set (dict_keys d) \<and> ensure_in k v d = d @ [(k, v)])"
  by (auto simp: ensure_in_def dict_set_new)

lemma set_keys_foldl_dict_set:
  "set (dict_keys (foldl (\<lambda>d x. dict_set (kf x) (vf x) d) d xs)) = set (dict_keys d) \<union> kf ` set xs"
  by (induction xs arbitrary: d) auto

lemma distinct_keys_foldl_dict_set:
  "distinct (dict_keys (foldl (\<lambda>d x. dict_set (kf x) (vf x) d) d xs)) = distinct (dict_keys d)"
  by (induction xs arbitrary: d) auto

lemma set_keys_foldl_ensure_in:
  "set (dict_keys (foldl (\<lambda>d x. ensure_in (kf x) (vf x) d) d xs)) = set (dict_keys d) \<union> kf ` set xs"
  by (induction xs arbitrary: d) auto

lemma distinct_keys_foldl_ensure_in:
  "distinct (dict_keys (foldl (\<lambda>d x. ensure_in (kf x) (vf x) d) d xs)) = distinct (dict_keys d)"
  by (induction xs arbitrary: d) auto

lemma foldl_dict_set_new:
  "distinct (map kf xs) \<Longrightarrow> kf ` set xs \<inter> set (dict_keys d) = {}
   \<Longrightarrow> foldl (\<lambda>d x. dict_set (kf x) (vf x) d) d xs = d @ map (\<lambda>x. (kf x, vf x)) xs"
proof (induction xs arbitrary: d)
  case Nil
  show ?case by simp
next
  case (Cons x xs)
  have new: "kf x \<notin> set (dict_keys d)" using Cons.prems by auto
  have "kf ` set xs \<inter> set (dict_keys (dict_set (kf x) (vf x) d)) = {}"
    using Cons.prems by auto
  with Cons.IH[of "dict_set (kf x) (vf x) d"] Cons.prems new show ?case
    by (simp add: dict_set_new)
qed

subsection \<open>Identifiers\<close>

lemma file_id_of_inj [simp]: "file_id_of a = file_id_of b \<longleftrightarrow> a = b"
  by (simp add: file_id_of_def)

lemma entity_id_of_inj [simp]: "entity_id_of a = entity_id_of b \<longleftrightarrow> a = b"
  by (simp add: entity_id_of_def)

lemma topic_id_of_inj [simp]: "topic_id_of a = topic_id_of b \<longleftrightarrow> a = b"
  by (simp add: topic_id_of_def)

lemma id_prefixes [simp]:
  "file_id_of a \<noteq> entity_id_of b" "file_id_of a \<noteq> topic_id_of c" "entity_id_of b \<noteq> topic_id_of c"
  "entity_id_of b \<noteq> file_id_of a" "topic_id_of c \<noteq> file_id_of a" "topic_id_of c \<noteq> entity_id_of b"
  by (simp_all add: file_id_of_def entity_id_of_def topic_id_of_def lit_def)

subsection \<open>Files and texts after the first pass\<close>

lemma distinct_registered_ids:
  "distinct (map w_path files) \<Longrightarrow> distinct (map (\<lambda>w. file_id_of (w_path w)) (registered files))"
proof -
  assume "distinct (map w_path files)"
  then have "distinct (map w_path (registered files))"
    unfolding registered_def by (rule distinct_map_filter)
  then show ?thesis by (simp add: distinct_map inj_on_def)
qed

lemma file_texts_first_pass_distinct:
  assumes "distinct (map w_path files)"
  shows "file_texts (exec (first_pass U files) init_kg)
     = map (\<lambda>w. (file_id_of (w_path w), w_text w)) (registered files)"
  using foldl_dict_set_new[OF distinct_registered_ids[OF assms], of "[]" w_text]
  by (simp add: file_texts_first_pass init_kg_def dict_keys_def)

lemma file_nodes_first_pass_distinct:
  assumes "distinct (map w_path files)"
  shows "file_nodes (exec (first_pass U files) init_kg)
     = map (\<lambda>w. (file_id_of (w_path w), file_node_of w)) (registered files)"
  using foldl_dict_set_new[OF distinct_registered_ids[OF assms], of "[]" file_node_of]
  by (simp add: file_nodes_first_pass init_kg_def dict_keys_def)

lemma keys_file_nodes_first_pass:
  "set (dict_keys (file_nodes (exec (first_pass U files) init_kg)))
     = (\<lambda>w. file_id_of (w_path w)) ` set (registered files)"
  by (simp add: file_nodes_first_pass set_keys_foldl_dict_set init_kg_def)

lemma keys_file_texts_first_pass:
  "set (dict_keys (file_texts (exec (first_pass U files) init_kg)))
     = (\<lambda>w. file_id_of (w_path w)) ` set (registered files)"
  by (simp add: file_texts_first_pass set_keys_foldl_dict_set init_kg_def)

lemma first_pass_registered: "first_pass U files = first_pass U (registered files)"
  unfolding first_pass_def registered_def
  by (induction files) (simp_all add: collect_file_def)

lemma build_kg_registered: "build_kg ord U files = build_kg ord U (registered files)"
  by (simp add: build_kg_def first_pass_registered[symmetric])

section \<open>What the edges of a run look like\<close>

lemma index_pairs_subset: "(a, b) \<in> set (index_pairs xs) \<Longrightarrow> a \<in> set xs \<and> b \<in> set xs"
  by (auto simp: index_pairs_def)

lemma file_edges_fields:
  assumes "e \<in> set (file_edges U w)"
  shows "strip (w_text w) \<noteq> [] \<and> e_from e = file_id_of (w_path w) \<and> e_file e = None \<and>
    ((e_type e = FILE_CONTAINS_ENTITY \<and>
      (\<exists>x\<in>set (find_entities U (w_text w)). e_to e = entity_id_of x \<and>
          e_weight e = Some (count_list (find_entities U (w_text w)) x))) \<or>
     (e_type e = FILE_CONTAINS_TOPIC \<and>
      (\<exists>t\<in>set (find_topics U (w_text w) 10). e_to e = topic_id_of t \<and>
          e_weight e = Some (count_list (find_topics U (w_text w) 10) t))))"
proof -
  from assms have nb: "strip (w_text w) \<noteq> []" by (auto simp: file_edges_def split: if_splits)
  from assms nb consider
    (ent) k v where "(k, v) \<in> set (Counter (find_entities U (w_text w)))"
      "e = contains_entity_edge (file_id_of (w_path w)) (entity_id_of k) v"
  | (top) k v where "(k, v) \<in> set (Counter (find_topics U (w_text w) 10))"
      "e = contains_topic_edge (file_id_of (w_path w)) (topic_id_of k) v"
    by (auto simp: file_edges_def)
  then show ?thesis
  proof cases
    case ent
    have "k \<in> set (find_entities U (w_text w))"
      using ent(1) set_keys_Counter[of "find_entities U (w_text w)"] by force
    with ent Counter_entry[OF ent(1)] nb show ?thesis
      by (auto simp: contains_entity_edge_def)
  next
    case top
    have "k \<in> set (find_topics U (w_text w) 10)"
      using top(1) set_keys_Counter[of "find_topics U (w_text w) 10"] by force
    with top Counter_entry[OF top(1)] nb show ?thesis
      by (auto simp: contains_topic_edge_def)
  qed
qed

lemma cooccur_edges_fields:
  assumes "e \<in> set (cooccur_edges ord U ft)"
  shows "e_file e = Some (fst ft) \<and> e_weight e = None \<and>
    ((e_type e = ENTITY_RELATED_TO_ENTITY \<and>
      (\<exists>a b. (a, b) \<in> set (index_pairs (ord (find_entities U (snd ft)))) \<and>
          e_from e = entity_id_of a \<and> e_to e = entity_id_of b)) \<or>
     (e_type e = ENTITY_RELATED_TO_TOPIC \<and>
      (\<exists>a\<in>set (ord (find_entities U (snd ft))). \<exists>t\<in>set (ord (find_topics U (snd ft) 10)).
          e_from e = entity_id_of a \<and> e_to e = topic_id_of t)))"
  using assms
  by (auto simp: cooccur_edges_def entity_entity_edges_def entity_topic_edges_def
      related_entity_edge_def related_topic_edge_def)

lemma edges_build_kg:
  "edges (build_kg ord U files) = concat (map (file_edges U) files)
     @ concat (map (cooccur_edges ord U) (file_texts (exec (first_pass U files) init_kg)))"
  by (simp add: build_kg_alt)

lemma nodes_build_kg:
  "file_nodes (build_kg ord U files) = file_nodes (exec (first_pass U files) init_kg)"
  "entity_nodes (build_kg ord U files) = entity_nodes (exec (first_pass U files) init_kg)"
  "topic_nodes (build_kg ord U files) = topic_nodes (exec (first_pass U files) init_kg)"
  "file_texts (build_kg ord U files) = file_texts (exec (first_pass U files) init_kg)"
  "entity_global_counts (build_kg ord U files)
     = entity_global_counts (exec (first_pass U files) init_kg)"
  "topic_global_counts (build_kg ord U files)
     = topic_global_counts (exec (first_pass U files) init_kg)"
  by (simp_all add: build_kg_alt)

section \<open>Files without text\<close>

text \<open>
  Claim C4 says that a walked file whose extracted text is empty gets a file node with no
  outgoing edges.  The script skips such a file before it stores anything: the run over the
  zero-byte file alone has no file node at all.
\<close>

theorem empty_file_has_no_node:
  "file_nodes (build_kg remdups ascii_tables [file_empty]) = []"
  by (simp add: nodes_build_kg first_pass_def collect_file_def file_empty_def strip_def init_kg_def)

text \<open>
  Claim C4, amended.  A walked file whose extracted text is empty or only white space
  produces no file node, no entry in \<open>file_texts\<close> and no edge: no edge starts or ends at its
  identifier or is tagged with it, and the run is the run without that file.  (The paths of
  a walk are distinct.)
\<close>

theorem blank_file_excluded:
  assumes w: "w \<in> set files" and blank: "strip (w_text w) = []"
    and paths: "distinct (map w_path files)"
  shows "file_id_of (w_path w) \<notin> set (dict_keys (file_nodes (build_kg ord U files))) \<and>
    file_id_of (w_path w) \<notin> set (dict_keys (file_texts (build_kg ord U files))) \<and>
    (\<forall>e\<in>set (edges (build_kg ord U files)).
        e_from e \<noteq> file_id_of (w_path w) \<and> e_to e \<noteq> file_id_of (w_path w) \<and>
        e_file e \<noteq> Some (file_id_of (w_path w))) \<and>
    build_kg ord U files = build_kg ord U (filter (\<lambda>v. v \<noteq> w) files)"
proof -
  let ?fid = "file_id_of (w_path w)"
  let ?g1 = "exec (first_pass U files) init_kg"
  have other: "w_path v \<noteq> w_path w" if "v \<in> set files" "strip (w_text v) \<noteq> []" for v
  proof -
    have "v \<noteq> w" using that blank by auto
    moreover have "inj_on w_path (set files)" using paths by (simp add: distinct_map)
    ultimately show ?thesis using that(1) w by (auto dest: inj_onD)
  qed
  have reg: "?fid \<notin> (\<lambda>v. file_id_of (w_path v)) ` set (registered files)"
  proof
    assume "?fid \<in> (\<lambda>v. file_id_of (w_path v)) ` set (registered files)"
    then obtain v where "v \<in> set files" "strip (w_text v) \<noteq> []" "w_path v = w_path w"
      by (auto simp: registered_def)
    with other[of v] show False by simp
  qed
  have 1: "?fid \<notin> set (dict_keys (file_nodes (build_kg ord U files)))"
    using reg by (simp only: nodes_build_kg keys_file_nodes_first_pass) simp
  have 2: "?fid \<notin> set (dict_keys (file_texts (build_kg ord U files)))"
    using reg by (simp only: nodes_build_kg keys_file_texts_first_pass) simp
  have 3: "e_from e \<noteq> ?fid \<and> e_to e \<noteq> ?fid \<and> e_file e \<noteq> Some ?fid"
    if "e \<in> set (edges (build_kg ord U files))" for e
  proof -
    from that consider (first) v where "v \<in> set files" "e \<in> set (file_edges U v)"
      | (second) ft where "ft \<in> set (file_texts ?g1)" "e \<in> set (cooccur_edges ord U ft)"
      by (auto simp: edges_build_kg)
    then show ?thesis
    proof cases
      case first
      from file_edges_fields[OF first(2)] other[OF first(1)] show ?thesis by auto
    next
      case second
      have "fst ft \<in> set (dict_keys (file_texts ?g1))"
        using second(1) by (auto simp: dict_keys_def)
      then have "fst ft \<noteq> ?fid" using 2 by (auto simp: nodes_build_kg)
      with cooccur_edges_fields[OF second(2)] show ?thesis by auto
    qed
  qed
  have "registered (filter (\<lambda>v. v \<noteq> w) files) = registered files"
    unfolding registered_def using blank by (induction files) auto
  then have 4: "build_kg ord U files = build_kg ord U (filter (\<lambda>v. v \<noteq> w) files)"
    using build_kg_registered[of ord U files]
      build_kg_registered[of ord U "filter (\<lambda>v. v \<noteq> w) files"] by simp
  from 1 2 3 4 show ?thesis by blast
qed

theorem blank_file_excluded_witness:
  "file_id_of (w_path file_empty)
      \<notin> set (dict_keys (file_nodes (build_kg remdups ascii_tables [file_empty, file_a]))) \<and>
   build_kg remdups ascii_tables [file_empty, file_a] = build_kg remdups ascii_tables [file_a]"
proof -
  have 1: "file_empty \<in> set [file_empty, file_a]" by simp
  have 2: "strip (w_text file_empty) = []" by (simp add: file_empty_def strip_def)
  have 3: "distinct (map w_path [file_empty, file_a])"
    by (simp add: file_empty_def file_a_def lit_def)
  have 4: "filter (\<lambda>v. v \<noteq> file_empty) [file_empty, file_a] = [file_a]"
    by (simp add: file_empty_def file_a_def lit_def)
  from blank_file_excluded[OF 1 2 3, of remdups ascii_tables] show ?thesis
    unfolding 4 by blast
qed

section \<open>Containment edges\<close>

lemma filter_concat_map_none:
  assumes "\<And>y. y \<in> set xs \<Longrightarrow> filter P (f y) = []"
  shows "filter P (concat (map f xs)) = []"
  using assms by (induction xs) auto

lemma filter_concat_map_one:
  assumes "x \<in> set xs" "distinct xs"
    and "\<And>y. y \<in> set xs \<Longrightarrow> y \<noteq> x \<Longrightarrow> filter P (f y) = []"
  shows "filter P (concat (map f xs)) = filter P (f x)"
  using assms
proof (induction xs)
  case Nil
  then show ?case by simp
next
  case (Cons a xs)
  show ?case
  proof (cases "a = x")
    case True
    then have "x \<notin> set xs" using Cons.prems(2) by simp
    then have "filter P (concat (map f xs)) = []"
      using Cons.prems(3) by (intro filter_concat_map_none) auto
    with True show ?thesis by simp
  next
    case False
    then have "x \<in> set xs" using Cons.prems(1) by simp
    moreover have "filter P (f a) = []" using Cons.prems(3)[of a] False by simp
    ultimately show ?thesis using Cons.IH Cons.prems by simp
  qed
qed

lemma filter_key_entry:
  "distinct (map fst c) \<Longrightarrow> (x, v) \<in> set c \<Longrightarrow> filter (\<lambda>kv. fst kv = x) c = [(x, v)]"
  by (induction c) (auto simp: image_iff filter_empty_conv)

lemma Counter_entry_mem: "x \<in> set xs \<Longrightarrow> (x, count_list xs x) \<in> set (Counter xs)"
proof -
  assume "x \<in> set xs"
  then have "x \<in> set (map fst (Counter xs))" by (simp only: set_keys_Counter)
  then obtain v where v: "(x, v) \<in> set (Counter xs)" by auto
  with Counter_entry[OF v] show ?thesis by simp
qed

lemma filter_Counter_key:
  "x \<in> set xs \<Longrightarrow> filter (\<lambda>kv. fst kv = x) (Counter xs) = [(x, count_list xs x)]"
  by (rule filter_key_entry[OF distinct_keys_Counter Counter_entry_mem])

lemma distinct_paths_files: "distinct (map w_path files) \<Longrightarrow> distinct files"
  by (rule distinct_map[THEN iffD1, THEN conjunct1])

lemma distinct_paths_other:
  "distinct (map w_path files) \<Longrightarrow> v \<in> set files \<Longrightarrow> w \<in> set files \<Longrightarrow> v \<noteq> w
   \<Longrightarrow> w_path v \<noteq> w_path w"
  by (auto simp: distinct_map dest: inj_onD)

text \<open>The edges of a run that start at the node of one registered file.\<close>

lemma edges_from_file:
  assumes w: "w \<in> set files" and paths: "distinct (map w_path files)"
  shows "filter (\<lambda>e. e_from e = file_id_of (w_path w) \<and> Q e) (edges (build_kg ord U files))
     = filter (\<lambda>e. e_from e = file_id_of (w_path w) \<and> Q e) (file_edges U w)"
proof -
  let ?P = "\<lambda>e. e_from e = file_id_of (w_path w) \<and> Q e"
  have a: "filter ?P (file_edges U v) = []" if "v \<in> set files" "v \<noteq> w" for v
  proof -
    have "e_from e \<noteq> file_id_of (w_path w)" if "e \<in> set (file_edges U v)" for e
      using file_edges_fields[OF that] distinct_paths_other[OF paths \<open>v \<in> set files\<close> w \<open>v \<noteq> w\<close>]
      by auto
    then show ?thesis by (auto simp: filter_empty_conv)
  qed
  have b: "filter ?P (cooccur_edges ord U ft) = []" for ft
  proof -
    have "e_from e \<noteq> file_id_of (w_path w)" if "e \<in> set (cooccur_edges ord U ft)" for e
      using cooccur_edges_fields[OF that] by auto
    then show ?thesis by (auto simp: filter_empty_conv)
  qed
  have "filter ?P (concat (map (file_edges U) files)) = filter ?P (file_edges U w)"
    using w distinct_paths_files[OF paths] a by (rule filter_concat_map_one)
  moreover have "filter ?P (concat (map (cooccur_edges ord U)
      (file_texts (exec (first_pass U files) init_kg)))) = []"
    by (rule filter_concat_map_none) (rule b)
  ultimately show ?thesis by (simp add: edges_build_kg)
qed

lemma file_edges_to_entity:
  assumes "strip (w_text w) \<noteq> []" "x \<in> set (find_entities U (w_text w))"
  shows "filter (\<lambda>e. e_from e = file_id_of (w_path w) \<and> e_to e = entity_id_of x) (file_edges U w)
     = [contains_entity_edge (file_id_of (w_path w)) (entity_id_of x)
          (count_list (find_entities U (w_text w)) x)]"
proof -
  have "filter (\<lambda>ec. fst ec = x) (Counter (find_entities U (w_text w)))
      = [(x, count_list (find_entities U (w_text w)) x)]"
    using assms(2) by (rule filter_Counter_key)
  then show ?thesis using assms(1)
    by (simp add: file_edges_def filter_map comp_def contains_entity_edge_def
        contains_topic_edge_def)
qed

lemma file_edges_to_topic:
  assumes "strip (w_text w) \<noteq> []" "t \<in> set (find_topics U (w_text w) 10)"
  shows "filter (\<lambda>e. e_from e = file_id_of (w_path w) \<and> e_to e = topic_id_of t) (file_edges U w)
     = [contains_topic_edge (file_id_of (w_path w)) (topic_id_of t)
          (count_list (find_topics U (w_text w) 10) t)]"
proof -
  have "filter (\<lambda>tc. fst tc = t) (Counter (find_topics U (w_text w) 10))
      = [(t, count_list (find_topics U (w_text w) 10) t)]"
    using assms(2) by (rule filter_Counter_key)
  then show ?thesis using assms(1)
    by (simp add: file_edges_def filter_map comp_def contains_entity_edge_def
        contains_topic_edge_def)
qed

text \<open>
  The containment edges of a registered file (a walked file whose text is not blank; the
  paths of a walk are distinct): the edges of the run from the file's node to the node of a
  term are exactly one record, and its weight is the number of times the term stands in the
  list the extractor returned for the file, \<open>find_entities(text)\<close> for an entity and
  \<open>find_topics(text)\<close> for a topic.  The first list keeps every match of the pattern; the
  second holds each word once.
\<close>

lemma containment_edges_of_file:
  assumes w: "w \<in> set files" and nb: "strip (w_text w) \<noteq> []"
    and paths: "distinct (map w_path files)"
  shows "(\<forall>x\<in>set (find_entities U (w_text w)).
      filter (\<lambda>e. e_from e = file_id_of (w_path w) \<and> e_to e = entity_id_of x)
        (edges (build_kg ord U files))
      = [\<lparr>e_type = FILE_CONTAINS_ENTITY, e_from = file_id_of (w_path w), e_to = entity_id_of x,
          e_weight = Some (count_list (find_entities U (w_text w)) x), e_file = None\<rparr>]) \<and>
    (\<forall>t\<in>set (find_topics U (w_text w) 10).
      filter (\<lambda>e. e_from e = file_id_of (w_path w) \<and> e_to e = topic_id_of t)
        (edges (build_kg ord U files))
      = [\<lparr>e_type = FILE_CONTAINS_TOPIC, e_from = file_id_of (w_path w), e_to = topic_id_of t,
          e_weight = Some (count_list (find_topics U (w_text w) 10) t), e_file = None\<rparr>])"
  using file_edges_to_entity[OF nb] file_edges_to_topic[OF nb]
  by (simp add: edges_from_file[OF w paths] contains_entity_edge_def contains_topic_edge_def)

text \<open>The extractor on the two files of the scenario.\<close>

lemma find_entities_file_a:
  "find_entities ascii_tables (w_text file_a) = [lit ''Acme Corp'', lit ''Acme Corp'']"
  by (simp add: file_a_def find_entities_def regex_eval strip_def lit_def entity_stop_def
      ascii_tables_def)

lemma find_topics_file_a: "find_topics ascii_tables (w_text file_a) 10 = [lit ''migration'']"
  by (simp add: file_a_def find_topics_def regex_eval AtLeast_5 lit_def topic_stop_def
      ascii_tables_def counter_eval)

lemma find_entities_file_b:
  "find_entities ascii_tables (w_text file_b) = [lit ''Acme Corp'', lit ''Globex Inc'']"
  by (simp add: file_b_def find_entities_def regex_eval strip_def lit_def entity_stop_def
      ascii_tables_def)

lemma find_topics_file_b:
  "find_topics ascii_tables (w_text file_b) 10 = [lit ''globex'', lit ''partnership'']"
  by (simp add: file_b_def find_topics_def regex_eval AtLeast_5 lit_def topic_stop_def
      ascii_tables_def counter_eval)

lemma scenario_not_blank: "strip (w_text file_a) \<noteq> []" "strip (w_text file_b) \<noteq> []"
  by (simp_all add: file_a_def file_b_def strip_def lit_def isspace_def)

lemma scenario_paths: "distinct (map w_path [file_a, file_b])"
  by (simp add: file_a_def file_b_def lit_def)

lemma containment_edges_scenario:
  "filter (\<lambda>e. e_from e = file_id_of (w_path file_a) \<and> e_to e = entity_id_of (lit ''Acme Corp''))
      (edges (build_kg remdups ascii_tables [file_a, file_b]))
    = [\<lparr>e_type = FILE_CONTAINS_ENTITY, e_from = file_id_of (w_path file_a),
        e_to = entity_id_of (lit ''Acme Corp''), e_weight = Some 2, e_file = None\<rparr>] \<and>
   filter (\<lambda>e. e_from e = file_id_of (w_path file_a) \<and> e_to e = topic_id_of (lit ''migration''))
      (edges (build_kg remdups ascii_tables [file_a, file_b]))
    = [\<lparr>e_type = FILE_CONTAINS_TOPIC, e_from = file_id_of (w_path file_a),
        e_to = topic_id_of (lit ''migration''), e_weight = Some 1, e_file = None\<rparr>]"
proof -
  have w: "file_a \<in> set [file_a, file_b]" by simp
  from containment_edges_of_file[OF w scenario_not_blank(1) scenario_paths,
      of ascii_tables remdups]
  show ?thesis
    unfolding find_entities_file_a find_topics_file_a by (simp add: lit_def)
qed

text \<open>The extractor on the file \<open>r.txt\<close>.\<close>

lemma find_entities_file_r:
  "find_entities ascii_tables (w_text file_r) = [lit ''Acme Corp'', lit ''Acme Corp'']"
  by (simp add: file_r_def find_entities_def regex_eval strip_def lit_def entity_stop_def
      ascii_tables_def)

lemma topic_words_file_r:
  "topic_words ascii_tables (w_text file_r) = [lit ''alpha'', lit ''alpha'', lit ''alpha'']"
  by (simp add: file_r_def topic_words_def regex_eval AtLeast_5 lit_def topic_stop_def
      ascii_tables_def)

lemma find_topics_file_r: "find_topics ascii_tables (w_text file_r) 10 = [lit ''alpha'']"
  by (simp add: file_r_def find_topics_def regex_eval AtLeast_5 lit_def topic_stop_def
      ascii_tables_def counter_eval)

lemma file_r_not_blank: "strip (w_text file_r) \<noteq> []"
  by (simp add: file_r_def strip_def lit_def isspace_def)

text \<open>
  Claim C1 says that each distinct term extracted from a registered file gets exactly one
  containment edge from the file's node, and that the weights of the file's containment
  edges to the term add up to the number of occurrences of the term in the file's raw
  extraction.  The edge is there once for entities and for topics, and for entities the
  weight is that number (\<open>containment_edges_of_file\<close>).  For topics the weight is counted in
  the list \<open>find_topics\<close> returns, in which a word stands once however often the pattern
  matched it.  On the single file \<open>r.txt\<close> with the text
  \<open>Acme Corp alpha alpha alpha Acme Corp\<close> the entity \<open>Acme Corp\<close> is extracted twice and
  its one edge weighs 2; the topic pattern matches \<open>alpha\<close> three times, all three are
  topic candidates, and the one edge to \<open>alpha\<close> weighs 1, which is also the sum of the
  weights of the file's containment edges to \<open>alpha\<close>.
\<close>

theorem topic_edge_weight_on_repeated_word:
  "count_list (find_entities ascii_tables (w_text file_r)) (lit ''Acme Corp'') = 2 \<and>
   filter (\<lambda>e. e_from e = file_id_of (w_path file_r) \<and> e_to e = entity_id_of (lit ''Acme Corp''))
      (edges (build_kg remdups ascii_tables [file_r]))
    = [\<lparr>e_type = FILE_CONTAINS_ENTITY, e_from = file_id_of (w_path file_r),
        e_to = entity_id_of (lit ''Acme Corp''), e_weight = Some 2, e_file = None\<rparr>] \<and>
   count_list (findall (is_word ascii_tables) topic_re (None, u_lower ascii_tables (w_text file_r)))
      (lit ''alpha'') = 3 \<and>
   count_list (topic_words ascii_tables (w_text file_r)) (lit ''alpha'') = 3 \<and>
   filter (\<lambda>e. e_from e = file_id_of (w_path file_r) \<and> e_to e = topic_id_of (lit ''alpha''))
      (edges (build_kg remdups ascii_tables [file_r]))
    = [\<lparr>e_type = FILE_CONTAINS_TOPIC, e_from = file_id_of (w_path file_r),
        e_to = topic_id_of (lit ''alpha''), e_weight = Some 1, e_file = None\<rparr>] \<and>
   sum_list (map (\<lambda>e. the (e_weight e))
      (filter (\<lambda>e. e_type e = FILE_CONTAINS_TOPIC \<and> e_from e = file_id_of (w_path file_r) \<and>
          e_to e = topic_id_of (lit ''alpha''))
        (edges (build_kg remdups ascii_tables [file_r])))) = 1"
proof -
  have w: "file_r \<in> set [file_r]" by simp
  have paths: "distinct (map w_path [file_r])" by simp
  note ce = containment_edges_of_file[OF w file_r_not_blank paths, of ascii_tables remdups,
      unfolded find_entities_file_r find_topics_file_r]
  have ent: "filter (\<lambda>e. e_from e = file_id_of (w_path file_r) \<and>
        e_to e = entity_id_of (lit ''Acme Corp'')) (edges (build_kg remdups ascii_tables [file_r]))
    = [\<lparr>e_type = FILE_CONTAINS_ENTITY, e_from = file_id_of (w_path file_r),
        e_to = entity_id_of (lit ''Acme Corp''), e_weight = Some 2, e_file = None\<rparr>]"
    using ce by (simp add: lit_def)
  have top: "filter (\<lambda>e. e_from e = file_id_of (w_path file_r) \<and>
        e_to e = topic_id_of (lit ''alpha'')) (edges (build_kg remdups ascii_tables [file_r]))
    = [\<lparr>e_type = FILE_CONTAINS_TOPIC, e_from = file_id_of (w_path file_r),
        e_to = topic_id_of (lit ''alpha''), e_weight = Some 1, e_file = None\<rparr>]"
    using ce by (simp add: lit_def)
  have "filter (\<lambda>e. e_type e = FILE_CONTAINS_TOPIC \<and> e_from e = file_id_of (w_path file_r) \<and>
          e_to e = topic_id_of (lit ''alpha'')) (edges (build_kg remdups ascii_tables [file_r]))
      = filter (\<lambda>e. e_type e = FILE_CONTAINS_TOPIC)
          (filter (\<lambda>e. e_from e = file_id_of (w_path file_r) \<and> e_to e = topic_id_of (lit ''alpha''))
            (edges (build_kg remdups ascii_tables [file_r])))"
    by (simp add: conj_commute)
  then have total: "sum_list (map (\<lambda>e. the (e_weight e))
      (filter (\<lambda>e. e_type e = FILE_CONTAINS_TOPIC \<and> e_from e = file_id_of (w_path file_r) \<and>
          e_to e = topic_id_of (lit ''alpha''))
        (edges (build_kg remdups ascii_tables [file_r])))) = 1"
    unfolding top by simp
  have raw: "count_list (findall (is_word ascii_tables) topic_re
      (None, u_lower ascii_tables (w_text file_r))) (lit ''alpha'') = 3"
    by (simp add: file_r_def regex_eval AtLeast_5 lit_def ascii_tables_def)
  have c1: "count_list (find_entities ascii_tables (w_text file_r)) (lit ''Acme Corp'') = 2"
    by (simp add: find_entities_file_r)
  have c2: "count_list (topic_words ascii_tables (w_text file_r)) (lit ''alpha'') = 3"
    by (simp add: topic_words_file_r)
  from c1 ent raw c2 top total show ?thesis by blast
qed

section \<open>The global counters\<close>

lemma counter_get_counter_update:
  "counter_get (counter_update c d) k
     = counter_get c k + sum_list (map snd (filter (\<lambda>kv. fst kv = k) d))"
  unfolding counter_update_def
  by (induction d arbitrary: c) (auto simp: counter_get_counter_add)

lemma count_list_0: "x \<notin> set xs \<Longrightarrow> count_list xs x = 0"
  by (induction xs) auto

lemma counter_get_update_Counter:
  "counter_get (counter_update c (Counter xs)) k = counter_get c k + count_list xs k"
proof (cases "k \<in> set xs")
  case True
  then show ?thesis by (simp add: counter_get_counter_update filter_Counter_key)
next
  case False
  then have "k \<notin> set (map fst (Counter xs))" by (simp only: set_keys_Counter) simp
  then have "filter (\<lambda>kv. fst kv = k) (Counter xs) = []"
    by (auto simp: filter_empty_conv)
  with False show ?thesis by (simp add: counter_get_counter_update count_list_0)
qed

lemma counter_get_foldl_update:
  "counter_get (foldl (\<lambda>c w. counter_update c (Counter (f w))) c ws) k
     = counter_get c k + sum_list (map (\<lambda>w. count_list (f w) k) ws)"
  by (induction ws arbitrary: c) (simp_all add: counter_get_update_Counter)

lemma counter_get_Nil [simp]: "counter_get [] k = 0"
  by (simp add: counter_get_def)

text \<open>
  The counter of an entity name is the sum, over the registered files, of the number of
  times the entity extractor returned the name for the file; the counter of a topic name is
  the same sum for the list \<open>find_topics\<close> returned.
\<close>

lemma entity_global_count:
  "counter_get (entity_global_counts (build_kg ord U files)) x
     = sum_list (map (\<lambda>w. count_list (find_entities U (w_text w)) x) (registered files))"
  by (simp add: nodes_build_kg entity_globals_first_pass counter_get_foldl_update init_kg_def)

lemma topic_global_count:
  "counter_get (topic_global_counts (build_kg ord U files)) t
     = sum_list (map (\<lambda>w. count_list (find_topics U (w_text w) 10) t) (registered files))"
  by (simp add: nodes_build_kg topic_globals_first_pass counter_get_foldl_update init_kg_def)

lemma distinct_find_topics: "distinct (find_topics U txt n)"
  unfolding find_topics_alt by (rule distinct_keys_most_common) (rule distinct_keys_Counter)

lemma count_list_distinct: "distinct xs \<Longrightarrow> count_list xs x = (if x \<in> set xs then 1 else 0)"
  by (induction xs) auto

lemma sum_list_indicator:
  "sum_list (map (\<lambda>w. if P w then 1 else 0) ws) = length (filter P ws)"
  by (induction ws) auto

section \<open>Topic weights\<close>

text \<open>
  Claim C9.  In every run every \<open>FILE_CONTAINS_TOPIC\<close> edge has weight 1: the per-file topic
  counter counts the list \<open>find_topics\<close> returned, which has no repetition.  So a file adds at
  most 1 to the global counter of a topic, and that counter is the number of registered
  files whose topic list holds the topic.
\<close>

theorem topic_weight_is_one:
  "(\<forall>e\<in>set (edges (build_kg ord U files)).
      e_type e = FILE_CONTAINS_TOPIC \<longrightarrow> e_weight e = Some 1) \<and>
   (\<forall>w t. counter_get (Counter (find_topics U (w_text w) 10)) t \<le> 1) \<and>
   (\<forall>t. counter_get (topic_global_counts (build_kg ord U files)) t
      = length (filter (\<lambda>w. t \<in> set (find_topics U (w_text w) 10)) (registered files)))"
proof -
  have 1: "e_weight e = Some 1"
    if "e \<in> set (edges (build_kg ord U files))" "e_type e = FILE_CONTAINS_TOPIC" for e
  proof -
    from that(1) consider (first) v where "v \<in> set files" "e \<in> set (file_edges U v)"
      | (second) ft where "e \<in> set (cooccur_edges ord U ft)"
      by (auto simp: edges_build_kg)
    then show ?thesis
    proof cases
      case first
      from file_edges_fields[OF first(2)] that(2) obtain t
        where "t \<in> set (find_topics U (w_text v) 10)"
          "e_weight e = Some (count_list (find_topics U (w_text v) 10) t)"
        by auto
      then show ?thesis by (simp add: count_list_distinct[OF distinct_find_topics])
    next
      case second
      from cooccur_edges_fields[OF second] that(2) show ?thesis by auto
    qed
  qed
  have 2: "counter_get (Counter (find_topics U (w_text w) 10)) t \<le> 1" for w t
    by (simp add: counter_get_Counter count_list_distinct[OF distinct_find_topics])
  have 3: "counter_get (topic_global_counts (build_kg ord U files)) t
      = length (filter (\<lambda>w. t \<in> set (find_topics U (w_text w) 10)) (registered files))" for t
    by (simp add: topic_global_count count_list_distinct[OF distinct_find_topics]
        sum_list_indicator)
  from 1 2 3 show ?thesis by blast
qed

lemma find_topics_file_c: "find_topics ascii_tables (w_text file_c) 10 = [lit ''alpha'']"
  by (simp add: file_c_def find_topics_def regex_eval AtLeast_5 lit_def topic_stop_def
      ascii_tables_def counter_eval)

lemma topic_words_file_c:
  "topic_words ascii_tables (w_text file_c) = [lit ''alpha'', lit ''alpha'', lit ''alpha'']"
  by (simp add: file_c_def topic_words_def regex_eval AtLeast_5 lit_def topic_stop_def
      ascii_tables_def)

lemma file_c_not_blank: "strip (w_text file_c) \<noteq> []"
  by (simp add: file_c_def strip_def lit_def isspace_def)

theorem topic_weight_is_one_witness:
  "e_weight (contains_topic_edge (file_id_of (w_path file_c)) (topic_id_of (lit ''alpha'')) 1)
     = Some 1 \<and>
   contains_topic_edge (file_id_of (w_path file_c)) (topic_id_of (lit ''alpha'')) 1
     \<in> set (edges (build_kg remdups ascii_tables [file_c])) \<and>
   count_list (topic_words ascii_tables (w_text file_c)) (lit ''alpha'') = 3 \<and>
   counter_get (topic_global_counts (build_kg remdups ascii_tables [file_c])) (lit ''alpha'') = 1"
proof -
  let ?e = "contains_topic_edge (file_id_of (w_path file_c)) (topic_id_of (lit ''alpha'')) 1"
  have "file_edges ascii_tables file_c = [?e]"
    using file_c_not_blank
    by (simp add: file_edges_def find_topics_file_c counter_eval)
       (simp add: file_c_def find_entities_def regex_eval strip_def lit_def ascii_tables_def)
  then have mem: "?e \<in> set (edges (build_kg remdups ascii_tables [file_c]))"
    by (simp add: edges_build_kg)
  have ty: "e_type ?e = FILE_CONTAINS_TOPIC" by (simp add: contains_topic_edge_def)
  have reg: "registered [file_c] = [file_c]" using file_c_not_blank by (simp add: registered_def)
  from topic_weight_is_one[of remdups ascii_tables "[file_c]"] mem ty
  have "e_weight ?e = Some 1"
    and "counter_get (topic_global_counts (build_kg remdups ascii_tables [file_c])) (lit ''alpha'')
      = length (filter (\<lambda>w. lit ''alpha'' \<in> set (find_topics ascii_tables (w_text w) 10))
          (registered [file_c]))"
    by blast+
  then show ?thesis using mem
    by (simp add: reg find_topics_file_c topic_words_file_c)
qed

section \<open>The summary's topic counts\<close>

lemma find_entities_file_c: "find_entities ascii_tables (w_text file_c) = []"
  by (simp add: file_c_def find_entities_def regex_eval strip_def lit_def ascii_tables_def)

lemma build_kg_file_c:
  "build_kg remdups ascii_tables [file_c] =
     \<lparr>file_nodes = [(file_id_of (w_path file_c), file_node_of file_c)],
      entity_nodes = [],
      topic_nodes = [(topic_id_of (lit ''alpha''), topic_node_of (lit ''alpha''))],
      edges = [contains_topic_edge (file_id_of (w_path file_c)) (topic_id_of (lit ''alpha'')) 1],
      entity_global_counts = [],
      topic_global_counts = [(lit ''alpha'', 1)],
      file_texts = [(file_id_of (w_path file_c), w_text file_c)]\<rparr>"
  using file_c_not_blank
  by (simp add: build_kg_alt first_pass_def exec_collect_file find_entities_file_c
      find_topics_file_c file_edges_def cooccur_edges_def entity_entity_edges_def
      entity_topic_edges_def index_pairs_def counter_eval counter_update_def ensure_in_def
      dict_keys_def init_kg_def)

lemma str_of_nat_digit: "n < 10 \<Longrightarrow> str_of_nat n = [48 + n]"
  by simp

text \<open>
  Claim C3 says that the global counter of a topic is the sum over the registered files of
  the topic's raw occurrences in the file, and that the summary lists the 20 largest totals
  with those counts.  For entities this is \<open>entity_global_count\<close> above.  For topics the
  counter is fed from the list \<open>find_topics\<close> returns, in which a word stands once however
  often it occurs (\<open>topic_global_count\<close>).  On the single file \<open>c.txt\<close> with the text
  \<open>alpha alpha alpha\<close> the topic pattern matches \<open>alpha\<close> three times, the global counter
  of \<open>alpha\<close> is 1, and the summary prints that number as its occurrences.
\<close>

theorem topic_counter_on_repeated_word:
  "count_list (findall (is_word ascii_tables) topic_re (None, u_lower ascii_tables (w_text file_c)))
      (lit ''alpha'') = 3 \<and>
   topic_global_counts (build_kg remdups ascii_tables [file_c]) = [(lit ''alpha'', 1)] \<and>
   summary_lines (build_kg remdups ascii_tables [file_c]) =
     [lit ''# Knowledge Graph Summary'' @ [10],
      lit ''- Files: 1'',
      lit ''- Entities: 0'',
      lit ''- Topics: 1'' @ [10],
      lit ''## Top Entities'' @ [10],
      [10] @ lit ''## Top Topics'' @ [10],
      lit ''- alpha (1 occurrences)'']"
proof -
  have "count_list (findall (is_word ascii_tables) topic_re
      (None, u_lower ascii_tables (w_text file_c))) (lit ''alpha'') = 3"
    by (simp add: file_c_def regex_eval AtLeast_5 lit_def ascii_tables_def)
  moreover have "summary_lines (build_kg remdups ascii_tables [file_c]) =
     [lit ''# Knowledge Graph Summary'' @ [10],
      lit ''- Files: 1'',
      lit ''- Entities: 0'',
      lit ''- Topics: 1'' @ [10],
      lit ''## Top Entities'' @ [10],
      [10] @ lit ''## Top Topics'' @ [10],
      lit ''- alpha (1 occurrences)'']"
    unfolding build_kg_file_c
    by (simp add: summary_lines_def most_common_def lit_def)
  ultimately show ?thesis by (simp add: build_kg_file_c)
qed

section \<open>Co-occurrence edges\<close>

lemma map_nth_fun: "map (\<lambda>j. f (xs ! j)) [0..<length xs] = map f xs"
proof -
  have "map (\<lambda>j. f (xs ! j)) [0..<length xs] = map f (map ((!) xs) [0..<length xs])"
    by (simp add: comp_def)
  then show ?thesis by (simp only: map_nth)
qed

lemma index_pairs_Cons: "index_pairs (x # xs) = map (Pair x) xs @ index_pairs xs"
proof -
  have up: "[0..<Suc (length xs)] = 0 # map Suc [0..<length xs]"
    by (simp add: upt_conv_Cons map_Suc_upt del: upt_Suc)
  have inner: "[Suc i..<Suc (length xs)] = map Suc [i..<length xs]" for i
    by (simp add: map_Suc_upt)
  show ?thesis
    unfolding index_pairs_def
    by (simp add: up inner comp_def map_nth_fun[of "Pair x" xs] del: upt_Suc)
qed

lemma index_pairs_Nil [simp]: "index_pairs [] = []"
  by (simp add: index_pairs_def)

lemma length_index_pairs: "length (index_pairs xs) = length xs * (length xs - 1) div 2"
proof (induction xs)
  case Nil
  show ?case by simp
next
  case (Cons x xs)
  have "length xs + length xs * (length xs - 1) div 2 = Suc (length xs) * length xs div 2"
    by (cases "length xs") (simp_all add: algebra_simps)
  with Cons show ?case by (simp add: index_pairs_Cons)
qed

lemma set_index_pairs:
  "distinct xs \<Longrightarrow> (a, b) \<in> set (index_pairs xs) \<Longrightarrow> a \<in> set xs \<and> b \<in> set xs \<and> a \<noteq> b"
  by (induction xs) (auto simp: index_pairs_Cons)

lemma index_pairs_once:
  assumes "distinct xs" "a \<in> set xs" "b \<in> set xs" "a \<noteq> b"
  shows "length (filter (\<lambda>pq. pq = (a, b) \<or> pq = (b, a)) (index_pairs xs)) = 1"
  using assms
proof (induction xs)
  case Nil
  then show ?case by simp
next
  case (Cons x xs)
  have none: "filter (\<lambda>pq. pq = (a, b) \<or> pq = (b, a)) (index_pairs xs) = []"
    if "a \<notin> set xs \<or> b \<notin> set xs"
    using that index_pairs_subset[of _ _ xs] by (auto simp: filter_empty_conv)
  have single: "length (filter (\<lambda>pq. pq = (x, c) \<or> pq = (c, x)) (map (Pair x) xs)) = 1"
    if "c \<in> set xs" "distinct xs" "x \<notin> set xs" for c
    using that by (induction xs) (auto simp: filter_empty_conv)
  have nox: "filter (\<lambda>pq. pq = (a, b) \<or> pq = (b, a)) (map (Pair x) xs) = []"
    if "a \<noteq> x" "b \<noteq> x"
    using that by (auto simp: filter_empty_conv)
  consider "a = x" "b \<in> set xs" | "b = x" "a \<in> set xs" | "a \<in> set xs" "b \<in> set xs" "a \<noteq> x" "b \<noteq> x"
    using Cons.prems by auto
  then show ?case
  proof cases
    case 1
    then have "a \<notin> set xs" using Cons.prems by auto
    with 1 none single[of b] Cons.prems show ?thesis by (simp add: index_pairs_Cons)
  next
    case 2
    then have "b \<notin> set xs" using Cons.prems by auto
    moreover have "(\<lambda>pq. pq = (a, x) \<or> pq = (x, a)) = (\<lambda>pq. pq = (x, a) \<or> pq = (a, x))"
      by auto
    ultimately show ?thesis using 2 none single[of a] Cons.prems by (simp add: index_pairs_Cons)
  next
    case 3
    with Cons nox show ?thesis by (simp add: index_pairs_Cons)
  qed
qed

lemma length_product: "length (concat (map (\<lambda>e. map (f e) ts) es)) = length es * length ts"
  by (induction es) simp_all

lemma product_once:
  assumes "distinct es" "distinct ts" "a \<in> set es" "t \<in> set ts"
  shows "length (filter (\<lambda>p. p = (a, t)) (concat (map (\<lambda>e. map (Pair e) ts) es))) = 1"
proof -
  have row: "length (filter (\<lambda>p. p = (a, t)) (map (Pair a) ts)) = 1"
    using assms(2,4) by (induction ts) (auto simp: filter_empty_conv)
  have other: "filter (\<lambda>p. p = (a, t)) (map (Pair e) ts) = []" if "e \<noteq> a" for e
    using that by (auto simp: filter_empty_conv)
  have "filter (\<lambda>p. p = (a, t)) (concat (map (\<lambda>e. map (Pair e) ts) es))
      = filter (\<lambda>p. p = (a, t)) (map (Pair a) ts)"
    using assms(3,1) other by (rule filter_concat_map_one)
  with row show ?thesis by simp
qed

text \<open>The edges of a run that are tagged with one registered file.\<close>

lemma edges_tagged_with_file:
  assumes w: "w \<in> set files" and nb: "strip (w_text w) \<noteq> []"
    and paths: "distinct (map w_path files)"
  shows "filter (\<lambda>e. e_file e = Some (file_id_of (w_path w)) \<and> Q e) (edges (build_kg ord U files))
     = filter (\<lambda>e. e_file e = Some (file_id_of (w_path w)) \<and> Q e)
         (cooccur_edges ord U (file_id_of (w_path w), w_text w))"
proof -
  let ?fid = "file_id_of (w_path w)"
  let ?P = "\<lambda>e. e_file e = Some ?fid \<and> Q e"
  let ?fts = "map (\<lambda>w. (file_id_of (w_path w), w_text w)) (registered files)"
  have fts: "file_texts (exec (first_pass U files) init_kg) = ?fts"
    using paths by (rule file_texts_first_pass_distinct)
  have a: "filter ?P (file_edges U v) = []" for v
  proof -
    have "e_file e \<noteq> Some ?fid" if "e \<in> set (file_edges U v)" for e
      using file_edges_fields[OF that] by auto
    then show ?thesis by (auto simp: filter_empty_conv)
  qed
  have dk: "distinct (map fst ?fts)"
    using distinct_registered_ids[OF paths] by (simp add: comp_def)
  then have d: "distinct ?fts" by (rule distinct_map[THEN iffD1, THEN conjunct1])
  have mem: "(?fid, w_text w) \<in> set ?fts" using w nb by (auto simp: registered_def)
  have b: "filter ?P (cooccur_edges ord U ft) = []" if "ft \<in> set ?fts" "ft \<noteq> (?fid, w_text w)" for ft
  proof -
    have "fst ft \<noteq> ?fid"
    proof
      assume "fst ft = ?fid"
      with dk that(1) mem have "ft = (?fid, w_text w)"
        by (metis eq_key_imp_eq_value prod.collapse)
      with that(2) show False by simp
    qed
    then have "e_file e \<noteq> Some ?fid" if "e \<in> set (cooccur_edges ord U ft)" for e
      using cooccur_edges_fields[OF that] by auto
    then show ?thesis by (auto simp: filter_empty_conv)
  qed
  have "filter ?P (concat (map (file_edges U) files)) = []"
    by (rule filter_concat_map_none) (rule a)
  moreover have "filter ?P (concat (map (cooccur_edges ord U) ?fts))
      = filter ?P (cooccur_edges ord U (?fid, w_text w))"
    using mem d b by (rule filter_concat_map_one)
  ultimately show ?thesis by (simp add: edges_build_kg fts)
qed

lemma filter_all: "(\<And>x. x \<in> set xs \<Longrightarrow> P x) \<Longrightarrow> filter P xs = xs"
  by (induction xs) auto

lemma filter_none: "(\<And>x. x \<in> set xs \<Longrightarrow> \<not> P x) \<Longrightarrow> filter P xs = []"
  by (induction xs) auto

lemma cooccur_edges_entity_part:
  "filter (\<lambda>e. e_file e = Some fid \<and> e_type e = ENTITY_RELATED_TO_ENTITY)
      (cooccur_edges ord U (fid, txt))
     = entity_entity_edges fid (ord (find_entities U txt))"
proof -
  have "filter (\<lambda>e. e_file e = Some fid \<and> e_type e = ENTITY_RELATED_TO_ENTITY)
      (entity_entity_edges fid xs) = entity_entity_edges fid xs" for xs
    by (rule filter_all) (auto simp: entity_entity_edges_def related_entity_edge_def)
  moreover have "filter (\<lambda>e. e_file e = Some fid \<and> e_type e = ENTITY_RELATED_TO_ENTITY)
      (entity_topic_edges fid xs ts) = []" for xs ts
    by (rule filter_none) (auto simp: entity_topic_edges_def related_topic_edge_def)
  ultimately show ?thesis by (simp add: cooccur_edges_def)
qed

lemma cooccur_edges_topic_part:
  "filter (\<lambda>e. e_file e = Some fid \<and> e_type e = ENTITY_RELATED_TO_TOPIC)
      (cooccur_edges ord U (fid, txt))
     = entity_topic_edges fid (ord (find_entities U txt)) (ord (find_topics U txt 10))"
proof -
  have "filter (\<lambda>e. e_file e = Some fid \<and> e_type e = ENTITY_RELATED_TO_TOPIC)
      (entity_topic_edges fid xs ts) = entity_topic_edges fid xs ts" for xs ts
    by (rule filter_all) (auto simp: entity_topic_edges_def related_topic_edge_def)
  moreover have "filter (\<lambda>e. e_file e = Some fid \<and> e_type e = ENTITY_RELATED_TO_TOPIC)
      (entity_entity_edges fid xs) = []" for xs
    by (rule filter_none) (auto simp: entity_entity_edges_def related_entity_edge_def)
  ultimately show ?thesis by (simp add: cooccur_edges_def)
qed

lemma entity_entity_edges_once:
  assumes "distinct xs" "a \<in> set xs" "b \<in> set xs" "a \<noteq> b"
  shows "length (filter (\<lambda>e. (e_from e = entity_id_of a \<and> e_to e = entity_id_of b) \<or>
                          (e_from e = entity_id_of b \<and> e_to e = entity_id_of a))
           (entity_entity_edges fid xs)) = 1"
proof -
  have "(\<lambda>e. (e_from e = entity_id_of a \<and> e_to e = entity_id_of b) \<or>
             (e_from e = entity_id_of b \<and> e_to e = entity_id_of a)) \<circ>
        (\<lambda>ab. related_entity_edge (entity_id_of (fst ab)) (entity_id_of (snd ab)) fid)
      = (\<lambda>pq. pq = (a, b) \<or> pq = (b, a))"
    by (auto simp: fun_eq_iff related_entity_edge_def)
  then show ?thesis
    using index_pairs_once[OF assms] by (simp add: entity_entity_edges_def filter_map)
qed

lemma entity_topic_edges_alt:
  "entity_topic_edges fid es ts
     = map (\<lambda>p. related_topic_edge (entity_id_of (fst p)) (topic_id_of (snd p)) fid)
         (concat (map (\<lambda>e. map (Pair e) ts) es))"
  by (simp add: entity_topic_edges_def map_concat comp_def)

lemma entity_topic_edges_once:
  assumes "distinct es" "distinct ts" "a \<in> set es" "t \<in> set ts"
  shows "length (filter (\<lambda>e. e_from e = entity_id_of a \<and> e_to e = topic_id_of t)
           (entity_topic_edges fid es ts)) = 1"
proof -
  have "(\<lambda>e. e_from e = entity_id_of a \<and> e_to e = topic_id_of t) \<circ>
        (\<lambda>p. related_topic_edge (entity_id_of (fst p)) (topic_id_of (snd p)) fid)
      = (\<lambda>p. p = (a, t))"
    by (auto simp: fun_eq_iff related_topic_edge_def)
  then show ?thesis
    using product_once[OF assms] by (simp add: entity_topic_edges_alt filter_map)
qed

text \<open>
  Claim C2.  Take a registered file whose set of distinct entities has \<open>n\<close> elements and whose
  set of distinct topics has \<open>m\<close> elements, and any iteration order of Python's sets.  Among
  the edges of the run, those of type \<open>ENTITY_RELATED_TO_ENTITY\<close> tagged with the file are
  \<open>n(n-1)/2\<close>; each joins two different entities of the file, and every unordered pair of
  different entities of the file is joined by exactly one of them.  Those of type
  \<open>ENTITY_RELATED_TO_TOPIC\<close> tagged with the file are \<open>n*m\<close>; each goes from an entity of the
  file to a topic of the file, and every such pair has exactly one.
\<close>

theorem cooccurrence_edges_of_file:
  assumes ord: "set_order ord"
    and w: "w \<in> set files" and nb: "strip (w_text w) \<noteq> []"
    and paths: "distinct (map w_path files)"
  shows
   "length (filter (\<lambda>e. e_file e = Some (file_id_of (w_path w)) \<and>
                         e_type e = ENTITY_RELATED_TO_ENTITY) (edges (build_kg ord U files)))
      = card (set (find_entities U (w_text w))) * (card (set (find_entities U (w_text w))) - 1) div 2 \<and>
    (\<forall>a\<in>set (find_entities U (w_text w)). \<forall>b\<in>set (find_entities U (w_text w)). a \<noteq> b \<longrightarrow>
       length (filter (\<lambda>e. (e_from e = entity_id_of a \<and> e_to e = entity_id_of b) \<or>
                            (e_from e = entity_id_of b \<and> e_to e = entity_id_of a))
         (filter (\<lambda>e. e_file e = Some (file_id_of (w_path w)) \<and>
                       e_type e = ENTITY_RELATED_TO_ENTITY) (edges (build_kg ord U files)))) = 1) \<and>
    (\<forall>e\<in>set (filter (\<lambda>e. e_file e = Some (file_id_of (w_path w)) \<and>
                       e_type e = ENTITY_RELATED_TO_ENTITY) (edges (build_kg ord U files))).
       \<exists>a\<in>set (find_entities U (w_text w)). \<exists>b\<in>set (find_entities U (w_text w)).
          a \<noteq> b \<and> e_from e = entity_id_of a \<and> e_to e = entity_id_of b) \<and>
    length (filter (\<lambda>e. e_file e = Some (file_id_of (w_path w)) \<and>
                         e_type e = ENTITY_RELATED_TO_TOPIC) (edges (build_kg ord U files)))
      = card (set (find_entities U (w_text w))) * card (set (find_topics U (w_text w) 10)) \<and>
    (\<forall>a\<in>set (find_entities U (w_text w)). \<forall>t\<in>set (find_topics U (w_text w) 10).
       length (filter (\<lambda>e. e_from e = entity_id_of a \<and> e_to e = topic_id_of t)
         (filter (\<lambda>e. e_file e = Some (file_id_of (w_path w)) \<and>
                       e_type e = ENTITY_RELATED_TO_TOPIC) (edges (build_kg ord U files)))) = 1) \<and>
    (\<forall>e\<in>set (filter (\<lambda>e. e_file e = Some (file_id_of (w_path w)) \<and>
                       e_type e = ENTITY_RELATED_TO_TOPIC) (edges (build_kg ord U files))).
       \<exists>a\<in>set (find_entities U (w_text w)). \<exists>t\<in>set (find_topics U (w_text w) 10).
          e_from e = entity_id_of a \<and> e_to e = topic_id_of t)"
proof -
  let ?fid = "file_id_of (w_path w)"
  let ?ents = "find_entities U (w_text w)"
  let ?tops = "find_topics U (w_text w) 10"
  let ?es = "ord ?ents"
  let ?ts = "ord ?tops"
  have des: "distinct ?es" and ses: "set ?es = set ?ents"
    and dts: "distinct ?ts" and sts: "set ?ts = set ?tops"
    using ord by (auto simp: set_order_def)
  have les: "length ?es = card (set ?ents)" using distinct_card[OF des] ses by simp
  have lts: "length ?ts = card (set ?tops)" using distinct_card[OF dts] sts by simp
  have ee: "filter (\<lambda>e. e_file e = Some ?fid \<and> e_type e = ENTITY_RELATED_TO_ENTITY)
      (edges (build_kg ord U files)) = entity_entity_edges ?fid ?es"
    by (simp only: edges_tagged_with_file[OF w nb paths] cooccur_edges_entity_part)
  have et: "filter (\<lambda>e. e_file e = Some ?fid \<and> e_type e = ENTITY_RELATED_TO_TOPIC)
      (edges (build_kg ord U files)) = entity_topic_edges ?fid ?es ?ts"
    by (simp only: edges_tagged_with_file[OF w nb paths] cooccur_edges_topic_part)
  have 1: "length (entity_entity_edges ?fid ?es) = card (set ?ents) * (card (set ?ents) - 1) div 2"
    by (simp add: entity_entity_edges_def length_index_pairs les)
  have 2: "length (filter (\<lambda>e. (e_from e = entity_id_of a \<and> e_to e = entity_id_of b) \<or>
                            (e_from e = entity_id_of b \<and> e_to e = entity_id_of a))
         (entity_entity_edges ?fid ?es)) = 1"
    if "a \<in> set ?ents" "b \<in> set ?ents" "a \<noteq> b" for a b
    using that ses by (intro entity_entity_edges_once[OF des]) auto
  have 3: "\<exists>a\<in>set ?ents. \<exists>b\<in>set ?ents. a \<noteq> b \<and> e_from e = entity_id_of a \<and> e_to e = entity_id_of b"
    if "e \<in> set (entity_entity_edges ?fid ?es)" for e
  proof -
    from that obtain a b where ab: "(a, b) \<in> set (index_pairs ?es)"
      "e = related_entity_edge (entity_id_of a) (entity_id_of b) ?fid"
      by (auto simp: entity_entity_edges_def)
    from set_index_pairs[OF des ab(1)] ab(2) ses show ?thesis
      by (auto simp: related_entity_edge_def)
  qed
  have 4: "length (entity_topic_edges ?fid ?es ?ts) = card (set ?ents) * card (set ?tops)"
    by (simp add: entity_topic_edges_def length_product les lts)
  have 5: "length (filter (\<lambda>e. e_from e = entity_id_of a \<and> e_to e = topic_id_of t)
         (entity_topic_edges ?fid ?es ?ts)) = 1"
    if "a \<in> set ?ents" "t \<in> set ?tops" for a t
    using that ses sts by (intro entity_topic_edges_once[OF des dts]) auto
  have 6: "\<exists>a\<in>set ?ents. \<exists>t\<in>set ?tops. e_from e = entity_id_of a \<and> e_to e = topic_id_of t"
    if "e \<in> set (entity_topic_edges ?fid ?es ?ts)" for e
    using that ses sts by (auto simp: entity_topic_edges_def related_topic_edge_def)
  show ?thesis unfolding ee et using 1 2 3 4 5 6 by blast
qed

lemma set_order_remdups: "set_order remdups"
  by (simp add: set_order_def)

theorem cooccurrence_edges_of_file_witness:
  "length (filter (\<lambda>e. e_file e = Some (file_id_of (w_path file_b)) \<and>
                        e_type e = ENTITY_RELATED_TO_ENTITY)
      (edges (build_kg remdups ascii_tables [file_a, file_b]))) = 1 \<and>
   length (filter (\<lambda>e. (e_from e = entity_id_of (lit ''Acme Corp'') \<and>
                         e_to e = entity_id_of (lit ''Globex Inc'')) \<or>
                        (e_from e = entity_id_of (lit ''Globex Inc'') \<and>
                         e_to e = entity_id_of (lit ''Acme Corp'')))
      (filter (\<lambda>e. e_file e = Some (file_id_of (w_path file_b)) \<and>
                     e_type e = ENTITY_RELATED_TO_ENTITY)
        (edges (build_kg remdups ascii_tables [file_a, file_b])))) = 1 \<and>
   length (filter (\<lambda>e. e_file e = Some (file_id_of (w_path file_b)) \<and>
                        e_type e = ENTITY_RELATED_TO_TOPIC)
      (edges (build_kg remdups ascii_tables [file_a, file_b]))) = 4"
proof -
  have w: "file_b \<in> set [file_a, file_b]" by simp
  have n: "card (set (find_entities ascii_tables (w_text file_b))) = 2"
    by (simp add: find_entities_file_b lit_def)
  have m: "card (set (find_topics ascii_tables (w_text file_b) 10)) = 2"
    by (simp add: find_topics_file_b lit_def)
  have ab: "lit ''Acme Corp'' \<in> set (find_entities ascii_tables (w_text file_b))"
    "lit ''Globex Inc'' \<in> set (find_entities ascii_tables (w_text file_b))"
    "lit ''Acme Corp'' \<noteq> lit ''Globex Inc''"
    by (simp_all add: find_entities_file_b lit_def)
  from cooccurrence_edges_of_file[OF set_order_remdups w scenario_not_blank(2) scenario_paths,
      of ascii_tables] ab
  show ?thesis unfolding n m by auto
qed

section \<open>The node dictionaries\<close>

lemma entries_dict_set: "p \<in> set (dict_set k v d) \<Longrightarrow> p = (k, v) \<or> p \<in> set d"
  by (induction d) (auto split: if_splits)

lemma entries_ensure_in: "p \<in> set (ensure_in k v d) \<Longrightarrow> p = (k, v) \<or> p \<in> set d"
  using entries_dict_set[of p k v d] by (auto simp: ensure_in_def split: if_splits)

lemma entries_foldl_dict_set:
  "p \<in> set (foldl (\<lambda>d x. dict_set (kf x) (vf x) d) d xs)
   \<Longrightarrow> p \<in> set d \<or> (\<exists>x\<in>set xs. p = (kf x, vf x))"
  by (induction xs arbitrary: d) (auto dest: entries_dict_set)

lemma entries_foldl_ensure_in:
  "p \<in> set (foldl (\<lambda>d x. ensure_in (kf x) (vf x) d) d xs)
   \<Longrightarrow> p \<in> set d \<or> (\<exists>x\<in>set xs. p = (kf x, vf x))"
  by (induction xs arbitrary: d) (auto dest: entries_ensure_in)

lemma entries_nested_ensure_in:
  "p \<in> set (foldl (\<lambda>d w. foldl (\<lambda>d x. ensure_in (kf x) (vf x) d) d (names w)) d ws)
   \<Longrightarrow> p \<in> set d \<or> (\<exists>w\<in>set ws. \<exists>x\<in>set (names w). p = (kf x, vf x))"
proof (induction ws arbitrary: d)
  case Nil
  then show ?case by simp
next
  case (Cons w ws)
  from Cons.IH[of "foldl (\<lambda>d x. ensure_in (kf x) (vf x) d) d (names w)"] Cons.prems
  show ?case by (auto dest: entries_foldl_ensure_in)
qed

lemma keys_nested_ensure_in:
  "set (dict_keys (foldl (\<lambda>d w. foldl (\<lambda>d x. ensure_in (kf x) (vf x) d) d (names w)) d ws))
     = set (dict_keys d) \<union> kf ` (\<Union>w\<in>set ws. set (names w))"
  by (induction ws arbitrary: d) (auto simp: set_keys_foldl_ensure_in)

lemma distinct_nested_ensure_in:
  "distinct (dict_keys (foldl (\<lambda>d w. foldl (\<lambda>d x. ensure_in (kf x) (vf x) d) d (names w)) d ws))
     = distinct (dict_keys d)"
  by (induction ws arbitrary: d) (simp_all add: distinct_keys_foldl_ensure_in)

lemma keys_entity_nodes:
  "set (dict_keys (entity_nodes (build_kg ord U files)))
     = entity_id_of ` (\<Union>w\<in>set (registered files). set (find_entities U (w_text w)))"
  by (simp add: nodes_build_kg entity_nodes_first_pass keys_nested_ensure_in init_kg_def
      set_keys_Counter del: set_map)

lemma keys_topic_nodes:
  "set (dict_keys (topic_nodes (build_kg ord U files)))
     = topic_id_of ` (\<Union>w\<in>set (registered files). set (find_topics U (w_text w) 10))"
  by (simp add: nodes_build_kg topic_nodes_first_pass keys_nested_ensure_in init_kg_def
      set_keys_Counter del: set_map)

lemma keys_file_nodes:
  "set (dict_keys (file_nodes (build_kg ord U files)))
     = (\<lambda>w. file_id_of (w_path w)) ` set (registered files)"
  by (simp add: nodes_build_kg keys_file_nodes_first_pass)

lemma distinct_keys_nodes:
  "distinct (dict_keys (file_nodes (build_kg ord U files)))"
  "distinct (dict_keys (entity_nodes (build_kg ord U files)))"
  "distinct (dict_keys (topic_nodes (build_kg ord U files)))"
  by (simp_all add: nodes_build_kg file_nodes_first_pass entity_nodes_first_pass
      topic_nodes_first_pass distinct_keys_foldl_dict_set distinct_nested_ensure_in init_kg_def)

lemma entries_file_nodes:
  "(k, nd) \<in> set (file_nodes (build_kg ord U files))
   \<Longrightarrow> \<exists>w\<in>set (registered files). k = file_id_of (w_path w) \<and> nd = file_node_of w"
  by (auto simp: nodes_build_kg file_nodes_first_pass init_kg_def dest: entries_foldl_dict_set)

lemma entries_file_texts:
  "(k, txt) \<in> set (file_texts (build_kg ord U files))
   \<Longrightarrow> \<exists>w\<in>set (registered files). k = file_id_of (w_path w) \<and> txt = w_text w"
  by (auto simp: nodes_build_kg file_texts_first_pass init_kg_def dest: entries_foldl_dict_set)

lemma entries_entity_nodes:
  "(k, nd) \<in> set (entity_nodes (build_kg ord U files))
   \<Longrightarrow> k = entity_id_of (n_name nd) \<and> nd = entity_node_of (n_name nd)"
  by (auto simp: nodes_build_kg entity_nodes_first_pass init_kg_def entity_node_of_def
      dest!: entries_nested_ensure_in)

lemma entries_topic_nodes:
  "(k, nd) \<in> set (topic_nodes (build_kg ord U files))
   \<Longrightarrow> k = topic_id_of (n_name nd) \<and> nd = topic_node_of (n_name nd)"
  by (auto simp: nodes_build_kg topic_nodes_first_pass init_kg_def topic_node_of_def
      dest!: entries_nested_ensure_in)

section \<open>Node identity\<close>

lemma distinct_values_by_key:
  assumes "distinct (dict_keys d)" "\<And>k v. (k, v) \<in> set d \<Longrightarrow> k = f v"
  shows "distinct (map f (dict_values d))"
proof -
  have "map f (dict_values d) = dict_keys d"
    using assms(2) by (induction d) (force simp: dict_values_def dict_keys_def)+
  with assms(1) show ?thesis by simp
qed

lemma distinct_map_comp: "distinct (map (\<lambda>x. g (h x)) xs) \<Longrightarrow> distinct (map h xs)"
  by (induction xs) auto

lemma filter_distinct_key:
  "distinct (map f xs) \<Longrightarrow> y \<in> set xs \<Longrightarrow> filter (\<lambda>z. f z = f y) xs = [y]"
  by (induction xs) (auto simp: filter_empty_conv image_iff)

lemma distinct_entity_names: "distinct (map n_name (dict_values (entity_nodes (build_kg ord U files))))"
proof -
  have "distinct (map (\<lambda>nd. entity_id_of (n_name nd))
      (dict_values (entity_nodes (build_kg ord U files))))"
    by (rule distinct_values_by_key[OF distinct_keys_nodes(2)]) (simp add: entries_entity_nodes)
  then show ?thesis by (rule distinct_map_comp)
qed

lemma distinct_topic_names: "distinct (map n_name (dict_values (topic_nodes (build_kg ord U files))))"
proof -
  have "distinct (map (\<lambda>nd. topic_id_of (n_name nd))
      (dict_values (topic_nodes (build_kg ord U files))))"
    by (rule distinct_values_by_key[OF distinct_keys_nodes(3)]) (simp add: entries_topic_nodes)
  then show ?thesis by (rule distinct_map_comp)
qed

lemma distinct_file_ids: "distinct (map n_id (dict_values (file_nodes (build_kg ord U files))))"
proof -
  have "k = n_id nd" if "(k, nd) \<in> set (file_nodes (build_kg ord U files))" for k nd
    using entries_file_nodes[OF that] by (auto simp: file_node_of_def)
  with distinct_keys_nodes(1) show ?thesis by (rule distinct_values_by_key)
qed

lemma distinct_file_paths: "distinct (map n_path (dict_values (file_nodes (build_kg ord U files))))"
proof -
  have "k = file_id_of (the (n_path nd))" if "(k, nd) \<in> set (file_nodes (build_kg ord U files))"
    for k nd
    using entries_file_nodes[OF that] by (auto simp: file_node_of_def)
  with distinct_keys_nodes(1) have "distinct (map (\<lambda>nd. file_id_of (the (n_path nd)))
      (dict_values (file_nodes (build_kg ord U files))))"
    by (rule distinct_values_by_key)
  then show ?thesis by (rule distinct_map_comp[where g = "\<lambda>p. file_id_of (the p)"])
qed

lemma the_entity_node:
  assumes "entity_id_of x \<in> set (dict_keys (entity_nodes (build_kg ord U files)))"
  shows "filter (\<lambda>nd. n_name nd = x) (dict_values (entity_nodes (build_kg ord U files)))
     = [entity_node_of x]"
proof -
  from assms obtain nd where nd: "(entity_id_of x, nd) \<in> set (entity_nodes (build_kg ord U files))"
    by (auto simp: dict_keys_def)
  from entries_entity_nodes[OF nd] have eq: "nd = entity_node_of x" "n_name nd = x" by auto
  have "nd \<in> set (dict_values (entity_nodes (build_kg ord U files)))"
    using nd by (force simp: dict_values_def)
  from filter_distinct_key[OF distinct_entity_names this] eq show ?thesis by simp
qed

lemma the_topic_node:
  assumes "topic_id_of t \<in> set (dict_keys (topic_nodes (build_kg ord U files)))"
  shows "filter (\<lambda>nd. n_name nd = t) (dict_values (topic_nodes (build_kg ord U files)))
     = [topic_node_of t]"
proof -
  from assms obtain nd where nd: "(topic_id_of t, nd) \<in> set (topic_nodes (build_kg ord U files))"
    by (auto simp: dict_keys_def)
  from entries_topic_nodes[OF nd] have eq: "nd = topic_node_of t" "n_name nd = t" by auto
  have "nd \<in> set (dict_values (topic_nodes (build_kg ord U files)))"
    using nd by (force simp: dict_values_def)
  from filter_distinct_key[OF distinct_topic_names this] eq show ?thesis by simp
qed

lemma the_file_node:
  assumes "fid \<in> set (dict_keys (file_nodes (build_kg ord U files)))"
  shows "length (filter (\<lambda>nd. n_id nd = fid) (dict_values (file_nodes (build_kg ord U files)))) = 1"
proof -
  from assms obtain nd where nd: "(fid, nd) \<in> set (file_nodes (build_kg ord U files))"
    by (auto simp: dict_keys_def)
  from entries_file_nodes[OF nd] have eq: "n_id nd = fid" by (auto simp: file_node_of_def)
  have "nd \<in> set (dict_values (file_nodes (build_kg ord U files)))"
    using nd by (force simp: dict_values_def)
  from filter_distinct_key[OF distinct_file_ids this] eq show ?thesis by simp
qed

text \<open>The ends of every edge of a run, by the kind of the edge.\<close>

lemma edge_ends:
  assumes "e \<in> set (edges (build_kg ord U files))"
  shows "(e_type e = FILE_CONTAINS_ENTITY \<and>
      (\<exists>w\<in>set (registered files). e_from e = file_id_of (w_path w) \<and>
         (\<exists>x\<in>set (find_entities U (w_text w)). e_to e = entity_id_of x))) \<or>
    (e_type e = FILE_CONTAINS_TOPIC \<and>
      (\<exists>w\<in>set (registered files). e_from e = file_id_of (w_path w) \<and>
         (\<exists>t\<in>set (find_topics U (w_text w) 10). e_to e = topic_id_of t))) \<or>
    (e_type e = ENTITY_RELATED_TO_ENTITY \<and>
      (\<exists>w\<in>set (registered files). e_file e = Some (file_id_of (w_path w)) \<and>
         (\<exists>a\<in>set (ord (find_entities U (w_text w))). e_from e = entity_id_of a) \<and>
         (\<exists>b\<in>set (ord (find_entities U (w_text w))). e_to e = entity_id_of b))) \<or>
    (e_type e = ENTITY_RELATED_TO_TOPIC \<and>
      (\<exists>w\<in>set (registered files). e_file e = Some (file_id_of (w_path w)) \<and>
         (\<exists>a\<in>set (ord (find_entities U (w_text w))). e_from e = entity_id_of a) \<and>
         (\<exists>t\<in>set (ord (find_topics U (w_text w) 10)). e_to e = topic_id_of t)))"
proof -
  from assms consider (first) v where "v \<in> set files" "e \<in> set (file_edges U v)"
    | (second) ft where "ft \<in> set (file_texts (build_kg ord U files))"
        "e \<in> set (cooccur_edges ord U ft)"
    by (auto simp: edges_build_kg nodes_build_kg)
  then show ?thesis
  proof cases
    case first
    from file_edges_fields[OF first(2)] first(1) have "v \<in> set (registered files)"
      by (simp add: registered_def)
    with file_edges_fields[OF first(2)] show ?thesis by blast
  next
    case second
    from entries_file_texts[of "fst ft" "snd ft" ord U files] second(1)
    obtain w where w: "w \<in> set (registered files)" "fst ft = file_id_of (w_path w)"
      "snd ft = w_text w" by auto
    from cooccur_edges_fields[OF second(2)] index_pairs_subset w show ?thesis
      by (metis (no_types, lifting))
  qed
qed

text \<open>
  Claim C5 says that no two nodes of one type share a name, for each of the three types.
  A file node is stored under \<open>file:\<close> plus the path, and its name is the base name: two
  files \<open>notes.txt\<close> in two directories give two file nodes named \<open>notes.txt\<close>.
\<close>

theorem two_file_nodes_share_a_name:
  "map (\<lambda>nd. (n_type nd, n_name nd))
      (dict_values (file_nodes (build_kg remdups ascii_tables [file_n1, file_n2])))
     = [(File_node, lit ''notes.txt''), (File_node, lit ''notes.txt'')]"
proof -
  have "distinct (map w_path [file_n1, file_n2])"
    by (simp add: file_n1_def file_n2_def lit_def)
  moreover have "registered [file_n1, file_n2] = [file_n1, file_n2]"
    by (simp add: registered_def file_n1_def file_n2_def strip_def lit_def isspace_def)
  ultimately show ?thesis
    by (simp add: nodes_build_kg file_nodes_first_pass_distinct dict_values_def file_node_of_def)
       (simp add: file_n1_def file_n2_def)
qed

text \<open>
  Claim C5, amended.  In every run no two nodes of one type share an identifier; no two
  entity nodes share a name and no two topic nodes share a name; no two file nodes share a
  path (two file nodes may share a name).  Registering an entity or a topic whose identifier
  is already in its dictionary changes nothing, so no second node is created.  Every
  containment edge starts at the identifier of exactly one file node and ends at the
  identifier of the one entity (or topic) node that has the term's name.
\<close>

theorem node_identity_by_key:
  "distinct (dict_keys (file_nodes (build_kg ord U files))) \<and>
   distinct (dict_keys (entity_nodes (build_kg ord U files))) \<and>
   distinct (dict_keys (topic_nodes (build_kg ord U files))) \<and>
   distinct (map n_path (dict_values (file_nodes (build_kg ord U files)))) \<and>
   distinct (map n_name (dict_values (entity_nodes (build_kg ord U files)))) \<and>
   distinct (map n_name (dict_values (topic_nodes (build_kg ord U files)))) \<and>
   (\<forall>g x. entity_id_of x \<in> set (dict_keys (entity_nodes g))
      \<longrightarrow> ensure_entity_node (entity_id_of x) x g = g) \<and>
   (\<forall>g t. topic_id_of t \<in> set (dict_keys (topic_nodes g))
      \<longrightarrow> ensure_topic_node (topic_id_of t) t g = g) \<and>
   (\<forall>e\<in>set (edges (build_kg ord U files)). e_type e = FILE_CONTAINS_ENTITY \<longrightarrow>
      length (filter (\<lambda>nd. n_id nd = e_from e)
        (dict_values (file_nodes (build_kg ord U files)))) = 1 \<and>
      (\<exists>x. e_to e = entity_id_of x \<and>
        filter (\<lambda>nd. n_name nd = x) (dict_values (entity_nodes (build_kg ord U files)))
          = [entity_node_of x])) \<and>
   (\<forall>e\<in>set (edges (build_kg ord U files)). e_type e = FILE_CONTAINS_TOPIC \<longrightarrow>
      length (filter (\<lambda>nd. n_id nd = e_from e)
        (dict_values (file_nodes (build_kg ord U files)))) = 1 \<and>
      (\<exists>t. e_to e = topic_id_of t \<and>
        filter (\<lambda>nd. n_name nd = t) (dict_values (topic_nodes (build_kg ord U files)))
          = [topic_node_of t]))"
proof -
  let ?g = "build_kg ord U files"
  have 7: "ensure_entity_node (entity_id_of x) x g = g"
    if "entity_id_of x \<in> set (dict_keys (entity_nodes g))" for g x
    using that by (simp add: ensure_entity_node_def)
  have 8: "ensure_topic_node (topic_id_of t) t g = g"
    if "topic_id_of t \<in> set (dict_keys (topic_nodes g))" for g t
    using that by (simp add: ensure_topic_node_def)
  have 9: "length (filter (\<lambda>nd. n_id nd = e_from e) (dict_values (file_nodes ?g))) = 1 \<and>
      (\<exists>x. e_to e = entity_id_of x \<and>
        filter (\<lambda>nd. n_name nd = x) (dict_values (entity_nodes ?g)) = [entity_node_of x])"
    if "e \<in> set (edges ?g)" "e_type e = FILE_CONTAINS_ENTITY" for e
  proof -
    from edge_ends[OF that(1)] that(2) obtain w x where w: "w \<in> set (registered files)"
      "e_from e = file_id_of (w_path w)" "x \<in> set (find_entities U (w_text w))"
      "e_to e = entity_id_of x" by auto
    have "e_from e \<in> set (dict_keys (file_nodes ?g))" using w by (auto simp: keys_file_nodes)
    moreover have "entity_id_of x \<in> set (dict_keys (entity_nodes ?g))"
      using w by (auto simp: keys_entity_nodes)
    ultimately show ?thesis using the_file_node the_entity_node w(4) by blast
  qed
  have 10: "length (filter (\<lambda>nd. n_id nd = e_from e) (dict_values (file_nodes ?g))) = 1 \<and>
      (\<exists>t. e_to e = topic_id_of t \<and>
        filter (\<lambda>nd. n_name nd = t) (dict_values (topic_nodes ?g)) = [topic_node_of t])"
    if "e \<in> set (edges ?g)" "e_type e = FILE_CONTAINS_TOPIC" for e
  proof -
    from edge_ends[OF that(1)] that(2) obtain w t where w: "w \<in> set (registered files)"
      "e_from e = file_id_of (w_path w)" "t \<in> set (find_topics U (w_text w) 10)"
      "e_to e = topic_id_of t" by auto
    have "e_from e \<in> set (dict_keys (file_nodes ?g))" using w by (auto simp: keys_file_nodes)
    moreover have "topic_id_of t \<in> set (dict_keys (topic_nodes ?g))"
      using w by (auto simp: keys_topic_nodes)
    ultimately show ?thesis using the_file_node the_topic_node w(4) by blast
  qed
  show ?thesis
    using distinct_keys_nodes[of ord U files] distinct_file_paths[of ord U files]
      distinct_entity_names[of ord U files] distinct_topic_names[of ord U files] 7 8 9 10
    by blast
qed

lemma edge_of_filter: "filter P xs = [e] \<Longrightarrow> e \<in> set xs"
proof -
  assume "filter P xs = [e]"
  then have "e \<in> set (filter P xs)" by simp
  then show ?thesis by simp
qed

theorem node_identity_by_key_witness:
  "contains_entity_edge (file_id_of (w_path file_a)) (entity_id_of (lit ''Acme Corp'')) 2
      \<in> set (edges (build_kg remdups ascii_tables [file_a, file_b])) \<and>
   contains_entity_edge (file_id_of (w_path file_b)) (entity_id_of (lit ''Acme Corp'')) 1
      \<in> set (edges (build_kg remdups ascii_tables [file_a, file_b])) \<and>
   filter (\<lambda>nd. n_name nd = lit ''Acme Corp'')
      (dict_values (entity_nodes (build_kg remdups ascii_tables [file_a, file_b])))
     = [entity_node_of (lit ''Acme Corp'')] \<and>
   distinct (map n_name (dict_values (entity_nodes (build_kg remdups ascii_tables [file_a, file_b]))))"
proof -
  let ?g = "build_kg remdups ascii_tables [file_a, file_b]"
  let ?ea = "contains_entity_edge (file_id_of (w_path file_a)) (entity_id_of (lit ''Acme Corp'')) 2"
  let ?eb = "contains_entity_edge (file_id_of (w_path file_b)) (entity_id_of (lit ''Acme Corp'')) 1"
  have a: "file_a \<in> set [file_a, file_b]" and b: "file_b \<in> set [file_a, file_b]" by simp_all
  have "filter (\<lambda>e. e_from e = file_id_of (w_path file_a) \<and> e_to e = entity_id_of (lit ''Acme Corp'')) (edges ?g) = [?ea]"
    unfolding edges_from_file[OF a scenario_paths]
    using file_edges_to_entity[OF scenario_not_blank(1), of "lit ''Acme Corp''" ascii_tables]
    by (simp add: find_entities_file_a lit_def numeral_2_eq_2)
  then have ma: "?ea \<in> set (edges ?g)" by (rule edge_of_filter)
  have "filter (\<lambda>e. e_from e = file_id_of (w_path file_b) \<and> e_to e = entity_id_of (lit ''Acme Corp'')) (edges ?g) = [?eb]"
    unfolding edges_from_file[OF b scenario_paths]
    using file_edges_to_entity[OF scenario_not_blank(2), of "lit ''Acme Corp''" ascii_tables]
    by (simp add: find_entities_file_b lit_def)
  then have mb: "?eb \<in> set (edges ?g)" by (rule edge_of_filter)
  have ty: "e_type ?ea = FILE_CONTAINS_ENTITY" "e_to ?ea = entity_id_of (lit ''Acme Corp'')"
    by (simp_all add: contains_entity_edge_def)
  note th = node_identity_by_key[of remdups ascii_tables "[file_a, file_b]"]
  note names = th[THEN conjunct2, THEN conjunct2, THEN conjunct2, THEN conjunct2, THEN conjunct1]
  note ends = th[THEN conjunct2, THEN conjunct2, THEN conjunct2, THEN conjunct2, THEN conjunct2,
      THEN conjunct2, THEN conjunct2, THEN conjunct2, THEN conjunct1]
  from ends[rule_format, OF ma ty(1)] obtain x where
    x: "e_to ?ea = entity_id_of x"
      "filter (\<lambda>nd. n_name nd = x) (dict_values (entity_nodes ?g)) = [entity_node_of x]"
    by blast
  from x(1) ty(2) have "x = lit ''Acme Corp''" by simp
  with x(2) names
  have "filter (\<lambda>nd. n_name nd = lit ''Acme Corp'') (dict_values (entity_nodes ?g))
      = [entity_node_of (lit ''Acme Corp'')]"
    and "distinct (map n_name (dict_values (entity_nodes ?g)))"
    by simp_all
  with ma mb show ?thesis by auto
qed

section \<open>Edges and the nodes they join\<close>

lemma holds_along_append:
  "holds_along I (xs @ ys) g \<longleftrightarrow> holds_along I xs g \<and> holds_along I ys (exec xs g)"
proof (induction xs arbitrary: g)
  case Nil
  show ?case by (cases ys) auto
next
  case (Cons s xs)
  then show ?case by auto
qed

lemma holds_along_start: "holds_along I steps g \<Longrightarrow> I g"
  by (cases steps) auto

lemma holds_along_iff:
  "holds_along I steps g \<longleftrightarrow> (\<forall>k\<le>length steps. I (exec (take k steps) g))"
proof (induction steps arbitrary: g)
  case Nil
  show ?case by simp
next
  case (Cons s steps)
  show ?case
  proof
    assume h: "holds_along I (s # steps) g"
    show "\<forall>k\<le>length (s # steps). I (exec (take k (s # steps)) g)"
    proof (intro allI impI)
      fix k assume "k \<le> length (s # steps)"
      with h Cons.IH[of "s g"] show "I (exec (take k (s # steps)) g)"
        by (cases k) auto
    qed
  next
    assume a: "\<forall>k\<le>length (s # steps). I (exec (take k (s # steps)) g)"
    then have "I g" by (auto dest: spec[of _ 0])
    moreover have "\<forall>k\<le>length steps. I (exec (take k steps) (s g))"
    proof (intro allI impI)
      fix k assume "k \<le> length steps"
      with a have "I (exec (take (Suc k) (s # steps)) g)" by (auto dest: spec[of _ "Suc k"])
      then show "I (exec (take k steps) (s g))" by simp
    qed
    ultimately show "holds_along I (s # steps) g" using Cons.IH[of "s g"] by simp
  qed
qed

lemma holds_along_concat_map:
  assumes "J g"
    and "\<And>x g. x \<in> set xs \<Longrightarrow> J g \<Longrightarrow> holds_along I (h x) g \<and> J (exec (h x) g)"
    and "\<And>g. J g \<Longrightarrow> I g"
  shows "holds_along I (concat (map h xs)) g \<and> J (exec (concat (map h xs)) g)"
  using assms(1,2)
proof (induction xs arbitrary: g)
  case Nil
  then show ?case using assms(3) by simp
next
  case (Cons x xs)
  from Cons.prems(2)[of x g] Cons.prems(1)
  have x: "holds_along I (h x) g" "J (exec (h x) g)" by auto
  from Cons.IH[OF x(2)] Cons.prems(2)
  have "holds_along I (concat (map h xs)) (exec (h x) g) \<and>
      J (exec (concat (map h xs)) (exec (h x) g))" by auto
  with x show ?case by (simp add: holds_along_append)
qed

lemma closed_init: "closed init_kg"
  by (simp add: closed_def init_kg_def)

lemma closed_grow:
  "closed g \<Longrightarrow> edges g' = edges g \<Longrightarrow> node_ids g \<subseteq> node_ids g' \<Longrightarrow> closed g'"
  by (auto simp: closed_def)

lemma closed_append_edge:
  "closed g \<Longrightarrow> e_from e \<in> node_ids g \<Longrightarrow> e_to e \<in> node_ids g \<Longrightarrow> closed (append_edge e g)"
  by (auto simp: closed_def append_edge_def node_ids_def)

lemma append_edge_nodes:
  "file_nodes (append_edge e g) = file_nodes g"
  "entity_nodes (append_edge e g) = entity_nodes g"
  "topic_nodes (append_edge e g) = topic_nodes g"
  by (simp_all add: append_edge_def)

text \<open>One round of each inner loop of the first pass, run where the file's node is there.\<close>

lemma closed_contains_entity_steps:
  assumes "closed g" "fid \<in> set (dict_keys (file_nodes g))"
  shows "holds_along closed (contains_entity_steps fid ec) g \<and>
    closed (exec (contains_entity_steps fid ec) g) \<and>
    fid \<in> set (dict_keys (file_nodes (exec (contains_entity_steps fid ec) g)))"
proof -
  let ?g1 = "ensure_entity_node (entity_id_of (fst ec)) (fst ec) g"
  let ?e = "contains_entity_edge fid (entity_id_of (fst ec)) (snd ec)"
  have 1: "closed ?g1"
    using assms(1) by (rule closed_grow) (auto simp: ensure_entity_node_alt node_ids_def)
  have f: "fid \<in> node_ids ?g1" using assms(2) by (simp add: ensure_entity_node_alt node_ids_def)
  have t: "entity_id_of (fst ec) \<in> node_ids ?g1"
    by (simp add: ensure_entity_node_alt node_ids_def)
  have 2: "closed (append_edge ?e ?g1)"
    using 1 f t by (intro closed_append_edge) (simp_all add: contains_entity_edge_def)
  show ?thesis using assms 1 2
    by (simp add: contains_entity_steps_def Let_def append_edge_nodes ensure_entity_node_alt)
qed

lemma closed_contains_topic_steps:
  assumes "closed g" "fid \<in> set (dict_keys (file_nodes g))"
  shows "holds_along closed (contains_topic_steps fid tc) g \<and>
    closed (exec (contains_topic_steps fid tc) g) \<and>
    fid \<in> set (dict_keys (file_nodes (exec (contains_topic_steps fid tc) g)))"
proof -
  let ?g1 = "ensure_topic_node (topic_id_of (fst tc)) (fst tc) g"
  let ?e = "contains_topic_edge fid (topic_id_of (fst tc)) (snd tc)"
  have 1: "closed ?g1"
    using assms(1) by (rule closed_grow) (auto simp: ensure_topic_node_alt node_ids_def)
  have f: "fid \<in> node_ids ?g1" using assms(2) by (simp add: ensure_topic_node_alt node_ids_def)
  have t: "topic_id_of (fst tc) \<in> node_ids ?g1"
    by (simp add: ensure_topic_node_alt node_ids_def)
  have 2: "closed (append_edge ?e ?g1)"
    using 1 f t by (intro closed_append_edge) (simp_all add: contains_topic_edge_def)
  show ?thesis using assms 1 2
    by (simp add: contains_topic_steps_def Let_def append_edge_nodes ensure_topic_node_alt)
qed

lemma closed_collect_file:
  assumes "closed g"
  shows "holds_along closed (collect_file U w) g \<and> closed (exec (collect_file U w) g)"
proof (cases "strip (w_text w) = []")
  case True
  with assms show ?thesis by (simp add: collect_file_def)
next
  case False
  let ?fid = "file_id_of (w_path w)"
  let ?J = "\<lambda>g. closed g \<and> ?fid \<in> set (dict_keys (file_nodes g))"
  let ?ec = "Counter (find_entities U (w_text w))"
  let ?tc = "Counter (find_topics U (w_text w) 10)"
  let ?head = "[set_file_node ?fid (file_node_of w), set_file_text ?fid (w_text w),
      update_entity_globals ?ec, update_topic_globals ?tc]"
  have steps: "collect_file U w = ?head @ concat (map (contains_entity_steps ?fid) ?ec)
      @ concat (map (contains_topic_steps ?fid) ?tc)"
    using False by (simp add: collect_file_def Let_def file_node_of_def)
  have g1: "closed (set_file_node ?fid (file_node_of w) g)"
    using assms by (rule closed_grow) (auto simp: set_file_node_def node_ids_def)
  have keep: "closed g' \<Longrightarrow> closed (set_file_text k v g')"
    "closed g' \<Longrightarrow> closed (update_entity_globals c g')"
    "closed g' \<Longrightarrow> closed (update_topic_globals c g')" for g' k v c
    by (auto simp: closed_def node_ids_def set_file_text_def update_entity_globals_def
        update_topic_globals_def)
  have head: "holds_along closed ?head g" using assms g1 keep by simp
  have Jh: "?J (exec ?head g)"
    using g1 keep
    by (simp add: set_file_node_def set_file_text_def update_entity_globals_def
        update_topic_globals_def closed_def node_ids_def)
  have l1: "holds_along closed (concat (map (contains_entity_steps ?fid) ?ec)) (exec ?head g) \<and>
      ?J (exec (concat (map (contains_entity_steps ?fid) ?ec)) (exec ?head g))"
    using Jh by (rule holds_along_concat_map) (auto simp: closed_contains_entity_steps)
  have l2: "holds_along closed (concat (map (contains_topic_steps ?fid) ?tc))
        (exec (concat (map (contains_entity_steps ?fid) ?ec)) (exec ?head g)) \<and>
      ?J (exec (concat (map (contains_topic_steps ?fid) ?tc))
        (exec (concat (map (contains_entity_steps ?fid) ?ec)) (exec ?head g)))"
    using l1[THEN conjunct2]
    by (rule holds_along_concat_map) (auto simp: closed_contains_topic_steps)
  show ?thesis
    unfolding steps using head l1 l2 by (simp only: holds_along_append exec_append)
qed

lemma closed_first_pass:
  "holds_along closed (first_pass U files) init_kg \<and> closed (exec (first_pass U files) init_kg)"
  unfolding first_pass_def
  using closed_init by (rule holds_along_concat_map) (auto simp: closed_collect_file)

lemma cooccur_file_alt: "cooccur_file ord U ft = map append_edge (cooccur_edges ord U ft)"
  by (simp add: cooccur_file_def cooccur_edges_def Let_def entity_entity_steps_alt
      entity_topic_steps_alt)

lemma second_pass_alt:
  "second_pass ord U g = map append_edge (concat (map (cooccur_edges ord U) (file_texts g)))"
proof -
  have "cooccur_file ord U = (\<lambda>ft. map append_edge (cooccur_edges ord U ft))"
    by (rule ext) (rule cooccur_file_alt)
  then show ?thesis by (simp add: second_pass_def map_concat comp_def)
qed

lemma holds_along_append_edges:
  "closed g \<Longrightarrow> (\<And>e. e \<in> set es \<Longrightarrow> e_from e \<in> node_ids g \<and> e_to e \<in> node_ids g)
   \<Longrightarrow> holds_along closed (map append_edge es) g"
proof (induction es arbitrary: g)
  case Nil
  then show ?case by simp
next
  case (Cons e es)
  have ids: "node_ids (append_edge e g) = node_ids g"
    by (simp add: node_ids_def append_edge_nodes)
  have "closed (append_edge e g)" using Cons.prems by (intro closed_append_edge) auto
  then have "holds_along closed (map append_edge es) (append_edge e g)"
    using Cons.prems(2) by (intro Cons.IH) (auto simp: ids)
  with Cons.prems(1) show ?case by simp
qed

text \<open>
  A co-occurrence edge joins terms of the text it was made from, and the first pass has
  made their nodes.
\<close>

lemma cooccur_edge_ends:
  assumes ord: "set_order ord"
    and ft: "ft \<in> set (file_texts (exec (first_pass U files) init_kg))"
    and e: "e \<in> set (cooccur_edges ord U ft)"
  shows "(\<exists>a\<in>set (find_entities U (snd ft)). e_from e = entity_id_of a \<and>
        entity_id_of a \<in> set (dict_keys (entity_nodes (exec (first_pass U files) init_kg)))) \<and>
    ((\<exists>b\<in>set (find_entities U (snd ft)). e_to e = entity_id_of b \<and>
        entity_id_of b \<in> set (dict_keys (entity_nodes (exec (first_pass U files) init_kg)))) \<or>
     (\<exists>t\<in>set (find_topics U (snd ft) 10). e_to e = topic_id_of t \<and>
        topic_id_of t \<in> set (dict_keys (topic_nodes (exec (first_pass U files) init_kg)))))"
proof -
  let ?g1 = "exec (first_pass U files) init_kg"
  have so: "set (ord xs) = set xs" for xs using ord by (simp add: set_order_def)
  from ft entries_file_texts[of "fst ft" "snd ft" ord U files]
  obtain w where w: "w \<in> set (registered files)" "snd ft = w_text w"
    by (auto simp: nodes_build_kg)
  have ek: "entity_id_of a \<in> set (dict_keys (entity_nodes ?g1))"
    if "a \<in> set (find_entities U (snd ft))" for a
    using that w keys_entity_nodes[of ord U files] by (auto simp: nodes_build_kg)
  have tk: "topic_id_of t \<in> set (dict_keys (topic_nodes ?g1))"
    if "t \<in> set (find_topics U (snd ft) 10)" for t
    using that w keys_topic_nodes[of ord U files] by (auto simp: nodes_build_kg)
  from cooccur_edges_fields[OF e] consider
    (ee) a b where "(a, b) \<in> set (index_pairs (ord (find_entities U (snd ft))))"
      "e_from e = entity_id_of a" "e_to e = entity_id_of b"
  | (et) a t where "a \<in> set (ord (find_entities U (snd ft)))"
      "t \<in> set (ord (find_topics U (snd ft) 10))"
      "e_from e = entity_id_of a" "e_to e = topic_id_of t"
    by auto
  then show ?thesis
  proof cases
    case ee
    from index_pairs_subset[OF ee(1)] have "a \<in> set (find_entities U (snd ft))"
      "b \<in> set (find_entities U (snd ft))" by (simp_all add: so)
    with ee ek show ?thesis by blast
  next
    case et
    then have "a \<in> set (find_entities U (snd ft))" "t \<in> set (find_topics U (snd ft) 10)"
      by (simp_all add: so)
    with et ek tk show ?thesis by blast
  qed
qed

text \<open>
  An edge of the run that is tagged with a file was appended by the second pass, for the
  entry of \<open>file_texts\<close> of that file.
\<close>

lemma tagged_edge_source:
  assumes e: "e \<in> set (edges (build_kg ord U files))" and tag: "e_file e = Some fid"
    and ft: "(fid, txt) \<in> set (file_texts (exec (first_pass U files) init_kg))"
  shows "e \<in> set (cooccur_edges ord U (fid, txt))"
proof -
  let ?fts = "file_texts (exec (first_pass U files) init_kg)"
  have d: "distinct (map fst ?fts)"
    using distinct_keys_foldl_dict_set[of "\<lambda>w. file_id_of (w_path w)" w_text "[]"
        "registered files"]
    by (simp add: file_texts_first_pass init_kg_def dict_keys_def)
  from e consider (first) v where "e \<in> set (file_edges U v)"
    | (second) ft' where "ft' \<in> set ?fts" "e \<in> set (cooccur_edges ord U ft')"
    by (auto simp: edges_build_kg)
  then show ?thesis
  proof cases
    case first
    from file_edges_fields[OF first] tag show ?thesis by simp
  next
    case second
    from cooccur_edges_fields[OF second(2)] tag have "fst ft' = fid" by simp
    with second(1) have "(fid, snd ft') \<in> set ?fts" by (metis prod.collapse)
    with d ft have "snd ft' = txt" by (metis eq_key_imp_eq_value)
    with \<open>fst ft' = fid\<close> second(2) show ?thesis by (metis prod.collapse)
  qed
qed

text \<open>
  Claim C6.  After every statement of the first pass, and after every statement of the
  second pass, every edge in the edge list starts and ends at an identifier that is a key of
  one of the three node dictionaries.  A statement that appends an edge leaves the node
  dictionaries as they are, so the two ends were there when the edge was made.  Every edge
  of the run that is tagged with a file (the edges of the second pass) goes from an entity
  of the text of that file to an entity or a topic of that text, and the nodes of these
  terms are in the dictionaries the first pass has built.  (For any iteration order of
  Python's sets.)
\<close>

theorem edge_ends_present_when_created:
  assumes ord: "set_order ord"
  shows "(\<forall>k\<le>length (first_pass U files).
        closed (exec (take k (first_pass U files)) init_kg)) \<and>
    (\<forall>k\<le>length (second_pass ord U (exec (first_pass U files) init_kg)).
        closed (exec (take k (second_pass ord U (exec (first_pass U files) init_kg)))
          (exec (first_pass U files) init_kg))) \<and>
    (\<forall>e g. file_nodes (append_edge e g) = file_nodes g \<and>
        entity_nodes (append_edge e g) = entity_nodes g \<and>
        topic_nodes (append_edge e g) = topic_nodes g) \<and>
    (\<forall>e\<in>set (edges (build_kg ord U files)). \<forall>fid txt.
        e_file e = Some fid \<and>
        (fid, txt) \<in> set (file_texts (exec (first_pass U files) init_kg)) \<longrightarrow>
        (\<exists>a\<in>set (find_entities U txt). e_from e = entity_id_of a \<and>
          entity_id_of a \<in> set (dict_keys (entity_nodes (exec (first_pass U files) init_kg)))) \<and>
        ((\<exists>b\<in>set (find_entities U txt). e_to e = entity_id_of b \<and>
          entity_id_of b \<in> set (dict_keys (entity_nodes (exec (first_pass U files) init_kg)))) \<or>
         (\<exists>t\<in>set (find_topics U txt 10). e_to e = topic_id_of t \<and>
          topic_id_of t \<in> set (dict_keys (topic_nodes (exec (first_pass U files) init_kg))))))"
proof -
  let ?g1 = "exec (first_pass U files) init_kg"
  have 4: "(\<exists>a\<in>set (find_entities U tx). e_from e = entity_id_of a \<and>
          entity_id_of a \<in> set (dict_keys (entity_nodes ?g1))) \<and>
        ((\<exists>b\<in>set (find_entities U tx). e_to e = entity_id_of b \<and>
          entity_id_of b \<in> set (dict_keys (entity_nodes ?g1))) \<or>
         (\<exists>t\<in>set (find_topics U tx 10). e_to e = topic_id_of t \<and>
          topic_id_of t \<in> set (dict_keys (topic_nodes ?g1))))"
    if "e \<in> set (edges (build_kg ord U files))" "e_file e = Some fid"
      "(fid, tx) \<in> set (file_texts ?g1)" for e fid tx
    using cooccur_edge_ends[OF ord that(3) tagged_edge_source[OF that]] by simp
  have 1: "\<forall>k\<le>length (first_pass U files). closed (exec (take k (first_pass U files)) init_kg)"
    using closed_first_pass[of U files] by (simp add: holds_along_iff)
  have ends: "e_from e \<in> node_ids ?g1 \<and> e_to e \<in> node_ids ?g1"
    if "e \<in> set (concat (map (cooccur_edges ord U) (file_texts ?g1)))" for e
  proof -
    from that obtain ft where "ft \<in> set (file_texts ?g1)" "e \<in> set (cooccur_edges ord U ft)"
      by auto
    from cooccur_edge_ends[OF ord this] show ?thesis by (auto simp: node_ids_def)
  qed
  have "holds_along closed (second_pass ord U ?g1) ?g1"
    unfolding second_pass_alt
    using closed_first_pass[of U files, THEN conjunct2] ends
    by (rule holds_along_append_edges)
  then have 2: "\<forall>k\<le>length (second_pass ord U ?g1). closed (exec (take k (second_pass ord U ?g1)) ?g1)"
    by (simp add: holds_along_iff)
  have 3: "\<forall>e g. file_nodes (append_edge e g) = file_nodes g \<and>
        entity_nodes (append_edge e g) = entity_nodes g \<and>
        topic_nodes (append_edge e g) = topic_nodes g"
    by (simp add: append_edge_nodes)
  show ?thesis using 1 2 3 4 by blast
qed

lemma first_pass_file_a:
  "first_pass ascii_tables [file_a] =
     [set_file_node (file_id_of (w_path file_a)) (file_node_of file_a),
      set_file_text (file_id_of (w_path file_a)) (w_text file_a),
      update_entity_globals [(lit ''Acme Corp'', 2)],
      update_topic_globals [(lit ''migration'', 1)],
      ensure_entity_node (entity_id_of (lit ''Acme Corp'')) (lit ''Acme Corp''),
      append_edge (contains_entity_edge (file_id_of (w_path file_a))
        (entity_id_of (lit ''Acme Corp'')) 2),
      ensure_topic_node (topic_id_of (lit ''migration'')) (lit ''migration''),
      append_edge (contains_topic_edge (file_id_of (w_path file_a))
        (topic_id_of (lit ''migration'')) 1)]"
  using scenario_not_blank(1)
  by (simp add: first_pass_def collect_file_def Let_def find_entities_file_a find_topics_file_a
      file_node_of_def contains_entity_steps_def contains_topic_steps_def counter_eval lit_def
      numeral_2_eq_2)

theorem edge_ends_present_when_created_witness:
  "length (first_pass ascii_tables [file_a]) = 8 \<and>
   edges (exec (take 6 (first_pass ascii_tables [file_a])) init_kg)
     = [contains_entity_edge (file_id_of (w_path file_a)) (entity_id_of (lit ''Acme Corp'')) 2] \<and>
   closed (exec (take 6 (first_pass ascii_tables [file_a])) init_kg)"
proof -
  have len: "length (first_pass ascii_tables [file_a]) = 8"
    by (simp add: first_pass_file_a)
  have ed: "edges (exec (take 6 (first_pass ascii_tables [file_a])) init_kg)
     = [contains_entity_edge (file_id_of (w_path file_a)) (entity_id_of (lit ''Acme Corp'')) 2]"
    by (simp add: first_pass_file_a stmt_defs init_kg_def)
  from edge_ends_present_when_created[OF set_order_remdups, of ascii_tables "[file_a]"]
  have "\<forall>k\<le>length (first_pass ascii_tables [file_a]).
      closed (exec (take k (first_pass ascii_tables [file_a])) init_kg)"
    by (rule conjunct1)
  then have "closed (exec (take 6 (first_pass ascii_tables [file_a])) init_kg)"
    using len by simp
  with len ed show ?thesis by simp
qed

section \<open>The Graphviz export\<close>

lemma length_dict_values [simp]: "length (dict_values d) = length d"
  by (simp add: dict_values_def)

lemma nth_dict_values: "i < length d \<Longrightarrow> dict_values d ! i = snd (d ! i)"
  by (simp add: dict_values_def)

lemma nth_append_left: "i < length xs \<Longrightarrow> (xs @ ys) ! i = xs ! i"
  by (simp add: nth_append)

lemma nth_append_right: "(xs @ ys) ! (length xs + i) = ys ! i"
  by (simp add: nth_append)

text \<open>
  Claim C10.  The Graphviz lines are the header, one line per file node, per entity node and
  per topic node, one line per edge, and the closing brace, in this order.  The line of a
  node is the fixed template with the node's identifier and name put between its pieces
  code point for code point, and the line of an edge is the fixed template with the two end
  identifiers and the type tag put in the same way: nothing is escaped, whatever the
  identifier or the name holds.
\<close>

theorem gv_lines_splice_fields_verbatim:
  "length (gv_lines g)
     = 2 + length (file_nodes g) + length (entity_nodes g) + length (topic_nodes g)
       + length (edges g) \<and>
   gv_lines g ! 0 = lit ''graph G {'' \<and>
   last (gv_lines g) = lit ''}'' \<and>
   (\<forall>i<length (file_nodes g).
      gv_lines g ! (1 + i)
        = lit ''  '' @ [34] @ n_id (snd (file_nodes g ! i)) @ [34] @ lit '' [label='' @ [34]
          @ n_name (snd (file_nodes g ! i)) @ [34] @ lit '' shape=box];'') \<and>
   (\<forall>i<length (entity_nodes g).
      gv_lines g ! (1 + length (file_nodes g) + i)
        = lit ''  '' @ [34] @ n_id (snd (entity_nodes g ! i)) @ [34] @ lit '' [label='' @ [34]
          @ n_name (snd (entity_nodes g ! i)) @ [34] @ lit '' shape=ellipse];'') \<and>
   (\<forall>i<length (topic_nodes g).
      gv_lines g ! (1 + length (file_nodes g) + length (entity_nodes g) + i)
        = lit ''  '' @ [34] @ n_id (snd (topic_nodes g ! i)) @ [34] @ lit '' [label='' @ [34]
          @ n_name (snd (topic_nodes g ! i)) @ [34] @ lit '' shape=diamond];'') \<and>
   (\<forall>i<length (edges g).
      gv_lines g ! (1 + length (file_nodes g) + length (entity_nodes g) + length (topic_nodes g) + i)
        = lit ''  '' @ [34] @ e_from (edges g ! i) @ [34] @ lit '' -- '' @ [34]
          @ e_to (edges g ! i) @ [34] @ lit '' [label='' @ [34] @ type_tag (e_type (edges g ! i))
          @ [34] @ lit ''];'')"
proof -
  let ?F = "map (gv_node_line (lit ''box'')) (dict_values (file_nodes g))"
  let ?E = "map (gv_node_line (lit ''ellipse'')) (dict_values (entity_nodes g))"
  let ?T = "map (gv_node_line (lit ''diamond'')) (dict_values (topic_nodes g))"
  let ?L = "map gv_edge_line (edges g)"
  have gv: "gv_lines g = [lit ''graph G {''] @ ?F @ ?E @ ?T @ ?L @ [lit ''}'']"
    by (simp add: gv_lines_def)
  have lF: "length ?F = length (file_nodes g)" and lE: "length ?E = length (entity_nodes g)"
    and lT: "length ?T = length (topic_nodes g)" and lL: "length ?L = length (edges g)"
    by simp_all
  have 1: "length (gv_lines g) = 2 + length (file_nodes g) + length (entity_nodes g)
      + length (topic_nodes g) + length (edges g)"
    by (simp add: gv lF lE lT lL)
  have 2: "gv_lines g ! 0 = lit ''graph G {''" by (simp add: gv)
  have 3: "last (gv_lines g) = lit ''}''" by (simp add: gv)
  have 4: "gv_lines g ! (1 + i) = lit ''  '' @ [34] @ n_id (snd (file_nodes g ! i)) @ [34]
      @ lit '' [label='' @ [34] @ n_name (snd (file_nodes g ! i)) @ [34] @ lit '' shape=box];''"
    if "i < length (file_nodes g)" for i
  proof -
    have "gv_lines g ! (1 + i) = ?F ! i"
      using that by (simp add: gv nth_append lF)
    also have "\<dots> = gv_node_line (lit ''box'') (snd (file_nodes g ! i))"
      using that by (simp add: nth_dict_values)
    finally show ?thesis by (simp add: gv_node_line_def dq_def lit_def)
  qed
  have 5: "gv_lines g ! (1 + length (file_nodes g) + i) = lit ''  '' @ [34]
      @ n_id (snd (entity_nodes g ! i)) @ [34] @ lit '' [label='' @ [34]
      @ n_name (snd (entity_nodes g ! i)) @ [34] @ lit '' shape=ellipse];''"
    if "i < length (entity_nodes g)" for i
  proof -
    have "gv_lines g ! (1 + length (file_nodes g) + i) = (?E @ ?T @ ?L @ [lit ''}'']) ! i"
      unfolding gv using nth_append_right[of ?F "?E @ ?T @ ?L @ [lit ''}'']" i]
      by (simp add: lF)
    also have "\<dots> = ?E ! i" using that by (simp add: nth_append lE)
    also have "\<dots> = gv_node_line (lit ''ellipse'') (snd (entity_nodes g ! i))"
      using that by (simp add: nth_dict_values)
    finally show ?thesis by (simp add: gv_node_line_def dq_def lit_def)
  qed
  have 6: "gv_lines g ! (1 + length (file_nodes g) + length (entity_nodes g) + i) = lit ''  ''
      @ [34] @ n_id (snd (topic_nodes g ! i)) @ [34] @ lit '' [label='' @ [34]
      @ n_name (snd (topic_nodes g ! i)) @ [34] @ lit '' shape=diamond];''"
    if "i < length (topic_nodes g)" for i
  proof -
    have "gv_lines g ! (1 + length (file_nodes g) + length (entity_nodes g) + i)
        = (?T @ ?L @ [lit ''}'']) ! i"
      unfolding gv using nth_append_right[of "?F @ ?E" "?T @ ?L @ [lit ''}'']" i]
      by (simp add: lF lE)
    also have "\<dots> = ?T ! i" using that by (simp add: nth_append lT)
    also have "\<dots> = gv_node_line (lit ''diamond'') (snd (topic_nodes g ! i))"
      using that by (simp add: nth_dict_values)
    finally show ?thesis by (simp add: gv_node_line_def dq_def lit_def)
  qed
  have 7: "gv_lines g ! (1 + length (file_nodes g) + length (entity_nodes g)
        + length (topic_nodes g) + i)
      = lit ''  '' @ [34] @ e_from (edges g ! i) @ [34] @ lit '' -- '' @ [34]
        @ e_to (edges g ! i) @ [34] @ lit '' [label='' @ [34] @ type_tag (e_type (edges g ! i))
        @ [34] @ lit ''];''"
    if "i < length (edges g)" for i
  proof -
    have "gv_lines g ! (1 + length (file_nodes g) + length (entity_nodes g)
        + length (topic_nodes g) + i) = (?L @ [lit ''}'']) ! i"
      unfolding gv using nth_append_right[of "?F @ ?E @ ?T" "?L @ [lit ''}'']" i]
      by (simp add: lF lE lT add.assoc)
    also have "\<dots> = ?L ! i" using that by (simp add: nth_append lL)
    also have "\<dots> = gv_edge_line (edges g ! i)" using that by simp
    finally show ?thesis by (simp add: gv_edge_line_def dq_def lit_def)
  qed
  from 1 2 3 4 5 6 7 show ?thesis by blast
qed

lemma find_entities_file_q:
  "find_entities ascii_tables (w_text file_q) = [lit ''Acme'' @ [10] @ lit ''Corp'']"
  by (simp add: file_q_def find_entities_def regex_eval strip_def lit_def entity_stop_def
      ascii_tables_def)

lemma find_topics_file_q: "find_topics ascii_tables (w_text file_q) 10 = []"
  by (simp add: file_q_def find_topics_def regex_eval AtLeast_5 lit_def topic_stop_def
      ascii_tables_def counter_eval)

lemma file_q_not_blank: "strip (w_text file_q) \<noteq> []"
  by (simp add: file_q_def strip_def lit_def isspace_def)

lemma build_kg_file_q:
  "build_kg remdups ascii_tables [file_q] =
     \<lparr>file_nodes = [(file_id_of (w_path file_q), file_node_of file_q)],
      entity_nodes = [(entity_id_of (lit ''Acme'' @ [10] @ lit ''Corp''),
                       entity_node_of (lit ''Acme'' @ [10] @ lit ''Corp''))],
      topic_nodes = [],
      edges = [contains_entity_edge (file_id_of (w_path file_q))
                 (entity_id_of (lit ''Acme'' @ [10] @ lit ''Corp'')) 1],
      entity_global_counts = [(lit ''Acme'' @ [10] @ lit ''Corp'', 1)],
      topic_global_counts = [],
      file_texts = [(file_id_of (w_path file_q), w_text file_q)]\<rparr>"
  using file_q_not_blank
  by (simp add: build_kg_alt first_pass_def exec_collect_file find_entities_file_q
      find_topics_file_q file_edges_def cooccur_edges_def entity_entity_edges_def
      entity_topic_edges_def index_pairs_def counter_eval counter_update_def ensure_in_def
      dict_keys_def init_kg_def)

theorem gv_lines_splice_fields_verbatim_witness:
  "gv_lines (build_kg remdups ascii_tables [file_q]) ! 1
     = lit ''  '' @ [34] @ lit ''file:./source/a'' @ [34] @ lit ''b'' @ [92] @ lit ''.txt'' @ [34]
       @ lit '' [label='' @ [34] @ lit ''a'' @ [34] @ lit ''b'' @ [92] @ lit ''.txt'' @ [34]
       @ lit '' shape=box];'' \<and>
   gv_lines (build_kg remdups ascii_tables [file_q]) ! 2
     = lit ''  '' @ [34] @ lit ''entity:Acme'' @ [10] @ lit ''Corp'' @ [34]
       @ lit '' [label='' @ [34] @ lit ''Acme'' @ [10] @ lit ''Corp'' @ [34]
       @ lit '' shape=ellipse];'' \<and>
   gv_lines (build_kg remdups ascii_tables [file_q]) ! 3
     = lit ''  '' @ [34] @ lit ''file:./source/a'' @ [34] @ lit ''b'' @ [92] @ lit ''.txt'' @ [34]
       @ lit '' -- '' @ [34] @ lit ''entity:Acme'' @ [10] @ lit ''Corp'' @ [34]
       @ lit '' [label='' @ [34] @ lit ''FILE_CONTAINS_ENTITY'' @ [34] @ lit ''];''"
proof -
  let ?g = "build_kg remdups ascii_tables [file_q]"
  note th = gv_lines_splice_fields_verbatim[of ?g]
  note files = th[THEN conjunct2, THEN conjunct2, THEN conjunct2, THEN conjunct1]
  note ents = th[THEN conjunct2, THEN conjunct2, THEN conjunct2, THEN conjunct2, THEN conjunct1]
  note edgs = th[THEN conjunct2, THEN conjunct2, THEN conjunct2, THEN conjunct2, THEN conjunct2,
      THEN conjunct2]
  have fn: "file_nodes ?g = [(file_id_of (w_path file_q), file_node_of file_q)]"
    and en: "entity_nodes ?g = [(entity_id_of (lit ''Acme'' @ [10] @ lit ''Corp''),
                       entity_node_of (lit ''Acme'' @ [10] @ lit ''Corp''))]"
    and tn: "topic_nodes ?g = []"
    and ed: "edges ?g = [contains_entity_edge (file_id_of (w_path file_q))
                 (entity_id_of (lit ''Acme'' @ [10] @ lit ''Corp'')) 1]"
    by (simp_all add: build_kg_file_q)
  from files[rule_format, of 0]
  have 1: "gv_lines ?g ! 1 = lit ''  '' @ [34] @ n_id (file_node_of file_q) @ [34]
      @ lit '' [label='' @ [34] @ n_name (file_node_of file_q) @ [34] @ lit '' shape=box];''"
    by (simp add: fn)
  from ents[rule_format, of 0]
  have 2: "gv_lines ?g ! Suc (Suc 0) = lit ''  '' @ [34]
      @ n_id (entity_node_of (lit ''Acme'' @ [10] @ lit ''Corp'')) @ [34]
      @ lit '' [label='' @ [34] @ n_name (entity_node_of (lit ''Acme'' @ [10] @ lit ''Corp''))
      @ [34] @ lit '' shape=ellipse];''"
    by (simp add: fn en)
  from edgs[rule_format, of 0]
  have 3: "gv_lines ?g ! Suc (Suc (Suc 0)) = lit ''  '' @ [34] @ file_id_of (w_path file_q) @ [34]
      @ lit '' -- '' @ [34] @ entity_id_of (lit ''Acme'' @ [10] @ lit ''Corp'') @ [34]
      @ lit '' [label='' @ [34] @ type_tag FILE_CONTAINS_ENTITY @ [34] @ lit ''];''"
    by (simp add: fn en tn ed contains_entity_edge_def)
  have ids: "n_id (file_node_of file_q)
        = lit ''file:./source/a'' @ [34] @ lit ''b'' @ [92] @ lit ''.txt''"
    "n_name (file_node_of file_q) = lit ''a'' @ [34] @ lit ''b'' @ [92] @ lit ''.txt''"
    "file_id_of (w_path file_q) = lit ''file:./source/a'' @ [34] @ lit ''b'' @ [92] @ lit ''.txt''"
    "n_id (entity_node_of (lit ''Acme'' @ [10] @ lit ''Corp''))
        = lit ''entity:Acme'' @ [10] @ lit ''Corp''"
    "n_name (entity_node_of (lit ''Acme'' @ [10] @ lit ''Corp'')) = lit ''Acme'' @ [10] @ lit ''Corp''"
    "entity_id_of (lit ''Acme'' @ [10] @ lit ''Corp'') = lit ''entity:Acme'' @ [10] @ lit ''Corp''"
    "type_tag FILE_CONTAINS_ENTITY = lit ''FILE_CONTAINS_ENTITY''"
    by (simp_all add: file_node_of_def entity_node_of_def file_id_of_def entity_id_of_def
        file_q_def type_tag_def lit_def)
  from 1 2 3 show ?thesis
    unfolding ids by (simp only: append_assoc numeral_2_eq_2 numeral_3_eq_3)
qed

end
